theory Spec2Isabelle
  imports Complex_Main "HOL-Library.Word" "HOL-Library.Signed_Division"
begin

unbundle bit_operations_syntax

section \<open>Go values used by package waveform\<close>

text \<open>
  Go's \<open>int\<close> is modelled by \<open>int\<close>: every index and size computed in this package is
  bounded by \<open>2 * len(samples)\<close> or by the bucket count, far below \<open>2^63\<close> for any slice
  that can be allocated. \<open>int16\<close> samples are \<open>16 word\<close>, read with \<open>sint\<close>. A run-time
  panic is a value of type \<open>panic\<close>; a function that may panic returns \<open>panic + 'a\<close>.
  The Go variable \<open>sum\<close> is written \<open>sum_f\<close>, since \<open>sum\<close> is a constant of HOL.
  Limits of the allocator (a slice too large for memory) are outside the model.
\<close>

datatype panic = IndexOutOfRange | MakeSliceLenOutOfRange | NilDereference | IntegerDivideByZero

type_synonym int16 = "16 word"
type_synonym uint64 = "64 word"

text \<open>
  \<open>float64\<close> arithmetic is not fixed by the package: it is the hardware's. The model is
  parametric in the type \<open>'f\<close> of float64 values and in the operations on it, so every
  theorem below holds whatever the rounding of these operations is. \<open>fconst\<close> converts an
  exact Go constant to float64, \<open>float64\<close> converts an integer, \<open>Float64bits\<close> and
  \<open>Float64frombits\<close> are the two pointer casts of \<open>fastSqrt\<close>.
\<close>

record 'f float64_ops =
  fconst :: "rat \<Rightarrow> 'f"
  float64 :: "int \<Rightarrow> 'f"
  fadd :: "'f \<Rightarrow> 'f \<Rightarrow> 'f"
  fsub :: "'f \<Rightarrow> 'f \<Rightarrow> 'f"
  fmul :: "'f \<Rightarrow> 'f \<Rightarrow> 'f"
  fdiv :: "'f \<Rightarrow> 'f \<Rightarrow> 'f"
  fneg :: "'f \<Rightarrow> 'f"
  flt :: "'f \<Rightarrow> 'f \<Rightarrow> bool"
  fle :: "'f \<Rightarrow> 'f \<Rightarrow> bool"
  fgt :: "'f \<Rightarrow> 'f \<Rightarrow> bool"
  Float64bits :: "'f \<Rightarrow> uint64"
  Float64frombits :: "uint64 \<Rightarrow> 'f"

text \<open>\<open>len(xs)\<close>, \<open>xs[i]\<close>, \<open>xs[i] = v\<close> and \<open>make([]float64, n)\<close>, with Go's run-time checks.\<close>

definition len :: "'a list \<Rightarrow> int" where
  "len xs = int (length xs)"

definition index :: "'a list \<Rightarrow> int \<Rightarrow> panic + 'a" where
  "index xs i = (if 0 \<le> i \<and> i < len xs then Inr (xs ! nat i) else Inl IndexOutOfRange)"

definition store :: "'a list \<Rightarrow> int \<Rightarrow> 'a \<Rightarrow> panic + 'a list" where
  "store xs i v = (if 0 \<le> i \<and> i < len xs then Inr (xs[nat i := v]) else Inl IndexOutOfRange)"

definition make_slice :: "'f float64_ops \<Rightarrow> int \<Rightarrow> panic + 'f list" where
  "make_slice F n = (if n < 0 then Inl MakeSliceLenOutOfRange else Inr (replicate (nat n) (fconst F 0)))"

text \<open>Sequencing of two computations that may panic: the first panic wins.\<close>

definition and_then :: "panic + 'a \<Rightarrow> ('a \<Rightarrow> panic + 'b) \<Rightarrow> panic + 'b" where
  "and_then r k = (case r of Inl e \<Rightarrow> Inl e | Inr v \<Rightarrow> k v)"

text \<open>
  \<open>for i := start; i < end; i++ { body }\<close> over a loop state \<open>s\<close>: the body may panic, which
  ends the loop.
\<close>

function for_loop :: "int \<Rightarrow> int \<Rightarrow> (int \<Rightarrow> 's \<Rightarrow> panic + 's) \<Rightarrow> 's \<Rightarrow> panic + 's" where
  "for_loop i end body s =
     (if i < end
      then (case body i s of Inl e \<Rightarrow> Inl e | Inr s' \<Rightarrow> for_loop (i + 1) end body s')
      else Inr s)"
  by pat_completeness auto
termination
  by (relation "measure (\<lambda>(i, end, body, s). nat (end - i))") auto

declare for_loop.simps [simp del]

section \<open>calculations.go\<close>

subsection \<open>fastSqrt\<close>

definition fastSqrt :: "'f float64_ops \<Rightarrow> 'f \<Rightarrow> 'f" where
  "fastSqrt F x =
     (if fle F x (fconst F 0) then fconst F 0
      else
        let i = Float64bits F x;
            i = 0x5fe6eb50c7b537a9 - drop_bit 1 i;
            y = Float64frombits F i;
            y = fmul F y (fsub F (fconst F 1.5) (fmul F (fmul F (fmul F (fconst F 0.5) x) y) y))
        in fdiv F (fconst F 1.0) y)"

subsection \<open>The six calculators\<close>

text \<open>\<open>const invMaxSample = 1.0 / 32768.0\<close>, and \<open>float64(samples[i]) * invMaxSample\<close>.\<close>

definition invMaxSample :: rat where
  "invMaxSample = 1.0 / 32768.0"

definition sample_at :: "'f float64_ops \<Rightarrow> int16 list \<Rightarrow> int \<Rightarrow> panic + 'f" where
  "sample_at F samples i =
     (case index samples i of
        Inl e \<Rightarrow> Inl e
      | Inr s \<Rightarrow> Inr (fmul F (float64 F (sint s)) (fconst F invMaxSample)))"

definition fabs :: "'f float64_ops \<Rightarrow> 'f \<Rightarrow> 'f" where
  \<comment> \<open>\<open>if val < 0 { val = -val }\<close>\<close>
  "fabs F val = (if flt F val (fconst F 0) then fneg F val else val)"

text \<open>calculateLUFS: the loop state is \<open>(sum, prevSample)\<close>.\<close>

definition calculateLUFS_body :: "'f float64_ops \<Rightarrow> int16 list \<Rightarrow> int \<Rightarrow> 'f \<times> 'f \<Rightarrow> panic + 'f \<times> 'f" where
  "calculateLUFS_body F samples i st =
     (case st of (sum_f, prevSample) \<Rightarrow>
        (case sample_at F samples i of
           Inl e \<Rightarrow> Inl e
         | Inr sample \<Rightarrow>
             let filtered = fsub F sample (fmul F (fconst F 0.85) prevSample);
                 prevSample = sample;
                 absFiltered = fabs F filtered;
                 scaled = fmul F (fmul F absFiltered absFiltered)
                            (fadd F (fconst F 1.0) (fmul F absFiltered (fconst F 0.5)))
             in Inr (fadd F sum_f scaled, prevSample)))"

definition calculateLUFS :: "'f float64_ops \<Rightarrow> int16 list \<Rightarrow> int \<Rightarrow> int \<Rightarrow> panic + 'f" where
  "calculateLUFS F samples start end =
     (if end \<le> start then Inr (fconst F 0)
      else
        let bucketSize = end - start in
        (case for_loop start end (calculateLUFS_body F samples) (fconst F 0, fconst F 0) of
           Inl e \<Rightarrow> Inl e
         | Inr (sum_f, prevSample) \<Rightarrow>
             if bucketSize > 0
             then
               let meanSquare = fdiv F sum_f (float64 F bucketSize);
                   lufs = fastSqrt F meanSquare;
                   lufs = (if fgt F lufs (fconst F 0.1)
                           then fmul F (fmul F lufs lufs) (fconst F 2.0)
                           else fmul F lufs (fconst F 0.5))
               in Inr lufs
             else Inr (fconst F 0)))"

text \<open>
  calculateRMS: the first loop takes eight samples per round and leaves \<open>i\<close> where the
  second loop continues. The eight reads happen in order, so the first one out of range
  panics.
\<close>

definition calculateRMS_block :: "'f float64_ops \<Rightarrow> int16 list \<Rightarrow> int \<Rightarrow> panic + 'f" where
  "calculateRMS_block F samples i =
     and_then (sample_at F samples i) (\<lambda>val1.
     and_then (sample_at F samples (i + 1)) (\<lambda>val2.
     and_then (sample_at F samples (i + 2)) (\<lambda>val3.
     and_then (sample_at F samples (i + 3)) (\<lambda>val4.
     and_then (sample_at F samples (i + 4)) (\<lambda>val5.
     and_then (sample_at F samples (i + 5)) (\<lambda>val6.
     and_then (sample_at F samples (i + 6)) (\<lambda>val7.
     and_then (sample_at F samples (i + 7)) (\<lambda>val8.
       Inr (fadd F (fadd F (fadd F (fadd F (fadd F (fadd F (fadd F
              (fmul F val1 val1) (fmul F val2 val2)) (fmul F val3 val3)) (fmul F val4 val4))
              (fmul F val5 val5)) (fmul F val6 val6)) (fmul F val7 val7)) (fmul F val8 val8))))))))))"

function calculateRMS_unrolled ::
    "'f float64_ops \<Rightarrow> int16 list \<Rightarrow> int \<Rightarrow> int \<Rightarrow> 'f \<Rightarrow> panic + int \<times> 'f" where
  "calculateRMS_unrolled F samples i end sum_f =
     (if i \<le> end - 8
      then (case calculateRMS_block F samples i of
              Inl e \<Rightarrow> Inl e
            | Inr blk \<Rightarrow> calculateRMS_unrolled F samples (i + 8) end (fadd F sum_f blk))
      else Inr (i, sum_f))"
  by pat_completeness auto
termination
  by (relation "measure (\<lambda>(F, samples, i, end, sum_f). nat (end - i))") auto

declare calculateRMS_unrolled.simps [simp del]

definition calculateRMS_body :: "'f float64_ops \<Rightarrow> int16 list \<Rightarrow> int \<Rightarrow> 'f \<Rightarrow> panic + 'f" where
  "calculateRMS_body F samples i sum_f =
     (case sample_at F samples i of
        Inl e \<Rightarrow> Inl e
      | Inr val \<Rightarrow> Inr (fadd F sum_f (fmul F val val)))"

definition calculateRMS :: "'f float64_ops \<Rightarrow> int16 list \<Rightarrow> int \<Rightarrow> int \<Rightarrow> panic + 'f" where
  "calculateRMS F samples start end =
     (if end \<le> start then Inr (fconst F 0)
      else
        let bucketSize = end - start in
        (case calculateRMS_unrolled F samples start end (fconst F 0) of
           Inl e \<Rightarrow> Inl e
         | Inr (i, sum_f) \<Rightarrow>
             (case for_loop i end (calculateRMS_body F samples) sum_f of
                Inl e \<Rightarrow> Inl e
              | Inr sum_f \<Rightarrow>
                  if bucketSize > 0
                  then Inr (fastSqrt F (fdiv F sum_f (float64 F bucketSize)))
                  else Inr (fconst F 0))))"

text \<open>calculatePeak: the loop state is \<open>maxVal\<close>.\<close>

definition calculatePeak_body :: "'f float64_ops \<Rightarrow> int16 list \<Rightarrow> int \<Rightarrow> 'f \<Rightarrow> panic + 'f" where
  "calculatePeak_body F samples i maxVal =
     (case sample_at F samples i of
        Inl e \<Rightarrow> Inl e
      | Inr val \<Rightarrow>
          let val = fabs F val
          in Inr (if fgt F val maxVal then val else maxVal))"

definition calculatePeak :: "'f float64_ops \<Rightarrow> int16 list \<Rightarrow> int \<Rightarrow> int \<Rightarrow> panic + 'f" where
  "calculatePeak F samples start end =
     (if end \<le> start then Inr (fconst F 0)
      else for_loop start end (calculatePeak_body F samples) (fconst F 0))"

text \<open>calculateVU: the loop state is \<open>sum\<close>.\<close>

definition calculateVU_body :: "'f float64_ops \<Rightarrow> int16 list \<Rightarrow> int \<Rightarrow> 'f \<Rightarrow> panic + 'f" where
  "calculateVU_body F samples i sum_f =
     (case sample_at F samples i of
        Inl e \<Rightarrow> Inl e
      | Inr val \<Rightarrow> Inr (fadd F sum_f (fmul F (fmul F val val) (fconst F 0.8))))"

definition calculateVU :: "'f float64_ops \<Rightarrow> int16 list \<Rightarrow> int \<Rightarrow> int \<Rightarrow> panic + 'f" where
  "calculateVU F samples start end =
     (if end \<le> start then Inr (fconst F 0)
      else
        let bucketSize = end - start in
        (case for_loop start end (calculateVU_body F samples) (fconst F 0) of
           Inl e \<Rightarrow> Inl e
         | Inr sum_f \<Rightarrow>
             if bucketSize > 0
             then
               let vu = fastSqrt F (fdiv F sum_f (float64 F bucketSize))
               in Inr (fmul F vu (fconst F 1.2))
             else Inr (fconst F 0)))"

text \<open>
  calculateDynamic: the first pass accumulates \<open>mean\<close>, the second pass has the state
  \<open>(sum, variance)\<close>.
\<close>

definition calculateDynamic_body1 :: "'f float64_ops \<Rightarrow> int16 list \<Rightarrow> int \<Rightarrow> 'f \<Rightarrow> panic + 'f" where
  "calculateDynamic_body1 F samples i mean =
     (case sample_at F samples i of
        Inl e \<Rightarrow> Inl e
      | Inr val \<Rightarrow>
          let val = fabs F val
          in Inr (fadd F mean val))"

definition calculateDynamic_body2 ::
    "'f float64_ops \<Rightarrow> int16 list \<Rightarrow> 'f \<Rightarrow> int \<Rightarrow> 'f \<times> 'f \<Rightarrow> panic + 'f \<times> 'f" where
  "calculateDynamic_body2 F samples mean i st =
     (case st of (sum_f, variance) \<Rightarrow>
        (case sample_at F samples i of
           Inl e \<Rightarrow> Inl e
         | Inr val \<Rightarrow>
             let val = fabs F val;
                 diff = fsub F val mean;
                 variance = fadd F variance (fmul F diff diff);
                 sum_f = fadd F sum_f (fmul F val val)
             in Inr (sum_f, variance)))"

definition calculateDynamic :: "'f float64_ops \<Rightarrow> int16 list \<Rightarrow> int \<Rightarrow> int \<Rightarrow> panic + 'f" where
  "calculateDynamic F samples start end =
     (if end \<le> start then Inr (fconst F 0)
      else
        let bucketSize = end - start in
        (case for_loop start end (calculateDynamic_body1 F samples) (fconst F 0) of
           Inl e \<Rightarrow> Inl e
         | Inr mean \<Rightarrow>
             let mean = fdiv F mean (float64 F bucketSize) in
             (case for_loop start end (calculateDynamic_body2 F samples mean)
                     (fconst F 0, fconst F 0) of
                Inl e \<Rightarrow> Inl e
              | Inr (sum_f, variance) \<Rightarrow>
                  if bucketSize > 0
                  then
                    let rms = fastSqrt F (fdiv F sum_f (float64 F bucketSize));
                        dynamicFactor = fastSqrt F (fdiv F variance (float64 F bucketSize))
                    in Inr (fmul F rms (fadd F (fconst F 1.0) (fmul F dynamicFactor (fconst F 2.0))))
                  else Inr (fconst F 0))))"

text \<open>calculateSmooth: the loop state is \<open>(sum, smoothedPrev)\<close>.\<close>

definition smoothingFactor :: rat where
  "smoothingFactor = 0.95"

definition calculateSmooth_body :: "'f float64_ops \<Rightarrow> int16 list \<Rightarrow> int \<Rightarrow> 'f \<times> 'f \<Rightarrow> panic + 'f \<times> 'f" where
  "calculateSmooth_body F samples i st =
     (case st of (sum_f, smoothedPrev) \<Rightarrow>
        (case sample_at F samples i of
           Inl e \<Rightarrow> Inl e
         | Inr val \<Rightarrow>
             let val = fabs F val;
                 smoothedPrev = fadd F (fmul F (fconst F smoothingFactor) smoothedPrev)
                                  (fmul F (fconst F (1.0 - smoothingFactor)) val);
                 sum_f = fadd F sum_f (fmul F smoothedPrev smoothedPrev)
             in Inr (sum_f, smoothedPrev)))"

definition calculateSmooth :: "'f float64_ops \<Rightarrow> int16 list \<Rightarrow> int \<Rightarrow> int \<Rightarrow> panic + 'f" where
  "calculateSmooth F samples start end =
     (if end \<le> start then Inr (fconst F 0)
      else
        let bucketSize = end - start in
        (case for_loop start end (calculateSmooth_body F samples) (fconst F 0, fconst F 0.0) of
           Inl e \<Rightarrow> Inl e
         | Inr (sum_f, smoothedPrev) \<Rightarrow>
             if bucketSize > 0
             then
               let smooth = fastSqrt F (fdiv F sum_f (float64 F bucketSize))
               in Inr (fmul F smooth (fconst F 0.8))
             else Inr (fconst F 0)))"

subsection \<open>calculateLoudness\<close>

type_synonym CalculationMode = string

definition ModeRMS :: CalculationMode where "ModeRMS = ''rms''"
definition ModeLUFS :: CalculationMode where "ModeLUFS = ''lufs''"
definition ModePeak :: CalculationMode where "ModePeak = ''peak''"
definition ModeVU :: CalculationMode where "ModeVU = ''vu''"
definition ModeDynamic :: CalculationMode where "ModeDynamic = ''dynamic''"
definition ModeSmooth :: CalculationMode where "ModeSmooth = ''smooth''"

definition calculateLoudness ::
    "'f float64_ops \<Rightarrow> int16 list \<Rightarrow> int \<Rightarrow> int \<Rightarrow> CalculationMode \<Rightarrow> panic + 'f" where
  "calculateLoudness F samples start end mode =
     (if mode = ModeRMS then calculateRMS F samples start end
      else if mode = ModeLUFS then calculateLUFS F samples start end
      else if mode = ModePeak then calculatePeak F samples start end
      else if mode = ModeVU then calculateVU F samples start end
      else if mode = ModeDynamic then calculateDynamic F samples start end
      else if mode = ModeSmooth then calculateSmooth F samples start end
      else calculateLUFS F samples start end)"

section \<open>waveform.go\<close>

subsection \<open>Config and Waveform\<close>

text \<open>
  The two structs. \<open>Waveform.Config\<close> is a pointer in Go: \<open>None\<close> is the nil pointer. No
  function of the package writes through it, so the record holds the value it points to.
  A slice that may be nil is an \<open>option\<close> where the code tests it against nil (in
  \<open>UpdateConfig\<close>); elsewhere nil and the empty slice behave alike and both are \<open>[]\<close>.
\<close>

record 'f Config =
  Width :: int
  Height :: int
  Bars :: int
  BarSpacing :: int
  BarColor :: string
  CornerRadius :: 'f
  Concurrent :: bool
  Mode :: CalculationMode

record 'f Waveform =
  Peaks :: "'f list"
  Config :: "'f Config option"

definition DefaultConfig :: "'f float64_ops \<Rightarrow> 'f Config" where
  "DefaultConfig F =
     \<lparr>Width = 500, Height = 80, Bars = 100, BarSpacing = 2, BarColor = ''#3B82F6'',
      CornerRadius = fconst F 8.0, Concurrent = True, Mode = ModeDynamic\<rparr>"

subsection \<open>downsample\<close>

text \<open>One round of the loop over \<open>bucket\<close>; the loop state is the slice \<open>peaks\<close>.\<close>

definition downsample_body ::
    "'f float64_ops \<Rightarrow> int16 list \<Rightarrow> int \<Rightarrow> CalculationMode \<Rightarrow> int \<Rightarrow> 'f list \<Rightarrow> panic + 'f list" where
  "downsample_body F samples samplesPerBucket mode bucket peaks =
     (let start = bucket * samplesPerBucket;
          end = start + samplesPerBucket;
          end = (if end > len samples then len samples else end)
      in case calculateLoudness F samples start end mode of
           Inl e \<Rightarrow> Inl e
         | Inr v \<Rightarrow> store peaks bucket v)"

definition downsample ::
    "'f float64_ops \<Rightarrow> int16 list \<Rightarrow> int \<Rightarrow> CalculationMode \<Rightarrow> panic + 'f list" where
  "downsample F samples buckets mode =
     (if len samples = 0 \<or> buckets = 0 then Inr []
      else
        let samplesPerBucket = len samples sdiv buckets;
            samplesPerBucket = (if samplesPerBucket = 0 then 1 else samplesPerBucket)
        in case make_slice F buckets of
             Inl e \<Rightarrow> Inl e
           | Inr peaks \<Rightarrow> for_loop 0 buckets (downsample_body F samples samplesPerBucket mode) peaks)"

subsection \<open>downsampleConcurrent\<close>

text \<open>
  The goroutines share \<open>peaks\<close> and read \<open>samples\<close>, which nobody writes. The state of
  the running goroutines is the slice \<open>peaks\<close> together with the loop counter \<open>bucket\<close>
  of each worker. A schedule is a list of worker numbers: each entry lets that worker run
  one round of its loop (a finished worker, or a number that is no worker, does nothing).
  \<open>wg.Wait()\<close> returns only when every goroutine has ended, so whatever the schedule has
  left undone is then run, worker after worker. Every interleaving of the workers' rounds
  is the run of some schedule. A panic in any goroutine ends the program.
\<close>

fun for_each :: "'a list \<Rightarrow> ('a \<Rightarrow> 's \<Rightarrow> panic + 's) \<Rightarrow> 's \<Rightarrow> panic + 's" where
  "for_each [] body s = Inr s"
| "for_each (x # xs) body s =
     (case body x s of Inl e \<Rightarrow> Inl e | Inr s' \<Rightarrow> for_each xs body s')"

definition worker_startBucket :: "int \<Rightarrow> int \<Rightarrow> int" where
  "worker_startBucket bucketsPerWorker workerID = workerID * bucketsPerWorker"

definition worker_endBucket :: "int \<Rightarrow> int \<Rightarrow> int \<Rightarrow> int \<Rightarrow> int" where
  "worker_endBucket buckets numWorkers bucketsPerWorker workerID =
     (let startBucket = workerID * bucketsPerWorker;
          endBucket = startBucket + bucketsPerWorker
      in if workerID = numWorkers - 1 then buckets else endBucket)"

definition worker_body ::
    "'f float64_ops \<Rightarrow> int16 list \<Rightarrow> int \<Rightarrow> CalculationMode \<Rightarrow> int \<Rightarrow> 'f list \<Rightarrow> panic + 'f list" where
  "worker_body F samples samplesPerBucket mode bucket peaks =
     (let startSample = bucket * samplesPerBucket;
          endSample = startSample + samplesPerBucket;
          endSample = (if endSample > len samples then len samples else endSample)
      in case calculateLoudness F samples startSample endSample mode of
           Inl e \<Rightarrow> Inl e
         | Inr v \<Rightarrow> store peaks bucket v)"

definition worker_round ::
    "'f float64_ops \<Rightarrow> int16 list \<Rightarrow> int \<Rightarrow> CalculationMode \<Rightarrow> int \<Rightarrow> int \<Rightarrow> int \<Rightarrow>
     nat \<Rightarrow> 'f list \<times> int list \<Rightarrow> panic + 'f list \<times> int list" where
  "worker_round F samples samplesPerBucket mode buckets numWorkers bucketsPerWorker w st =
     (case st of (peaks, counters) \<Rightarrow>
        if w < length counters
        then
          let bucket = counters ! w;
              endBucket = worker_endBucket buckets numWorkers bucketsPerWorker (int w)
          in if bucket < endBucket
             then (case worker_body F samples samplesPerBucket mode bucket peaks of
                     Inl e \<Rightarrow> Inl e
                   | Inr peaks \<Rightarrow> Inr (peaks, counters[w := bucket + 1]))
             else Inr (peaks, counters)
        else Inr (peaks, counters))"

definition worker_rest ::
    "'f float64_ops \<Rightarrow> int16 list \<Rightarrow> int \<Rightarrow> CalculationMode \<Rightarrow> int \<Rightarrow> int \<Rightarrow> int \<Rightarrow>
     int list \<Rightarrow> nat \<Rightarrow> 'f list \<Rightarrow> panic + 'f list" where
  "worker_rest F samples samplesPerBucket mode buckets numWorkers bucketsPerWorker counters w peaks =
     for_loop (counters ! w) (worker_endBucket buckets numWorkers bucketsPerWorker (int w))
       (worker_body F samples samplesPerBucket mode) peaks"

definition run_workers ::
    "'f float64_ops \<Rightarrow> int16 list \<Rightarrow> int \<Rightarrow> CalculationMode \<Rightarrow> int \<Rightarrow> int \<Rightarrow> int \<Rightarrow>
     nat list \<Rightarrow> 'f list \<Rightarrow> panic + 'f list" where
  "run_workers F samples samplesPerBucket mode buckets numWorkers bucketsPerWorker sched peaks =
     (let workers = [0 ..< nat numWorkers];
          counters = map (\<lambda>w. worker_startBucket bucketsPerWorker (int w)) workers
      in case for_each sched
                (worker_round F samples samplesPerBucket mode buckets numWorkers bucketsPerWorker)
                (peaks, counters) of
           Inl e \<Rightarrow> Inl e
         | Inr (peaks, counters) \<Rightarrow>
             for_each workers
               (worker_rest F samples samplesPerBucket mode buckets numWorkers bucketsPerWorker counters)
               peaks)"

text \<open>
  The work chunks: \<open>numWorkers\<close> and \<open>bucketsPerWorker\<close>, from the bucket count and the
  value \<open>numCPU\<close> of \<open>runtime.NumCPU()\<close>.
\<close>

definition work_chunks :: "int \<Rightarrow> int \<Rightarrow> int \<times> int" where
  "work_chunks buckets numCPU =
     (let numWorkers = numCPU;
          bucketsPerWorker = buckets sdiv numWorkers
      in if bucketsPerWorker = 0 then (buckets, 1) else (numWorkers, bucketsPerWorker))"

text \<open>
  \<open>numCPU\<close> is the value of \<open>runtime.NumCPU()\<close>, at least 1 on every machine, and
  \<open>sched\<close> the schedule of the goroutines.
\<close>

definition downsampleConcurrent ::
    "'f float64_ops \<Rightarrow> int \<Rightarrow> nat list \<Rightarrow> int16 list \<Rightarrow> int \<Rightarrow> CalculationMode \<Rightarrow> panic + 'f list" where
  "downsampleConcurrent F numCPU sched samples buckets mode =
     (if len samples = 0 \<or> buckets = 0 then Inr []
      else
        let samplesPerBucket = len samples sdiv buckets;
            samplesPerBucket = (if samplesPerBucket = 0 then 1 else samplesPerBucket)
        in if len samples < 50000 then downsample F samples buckets mode
           else
             (case make_slice F buckets of
                Inl e \<Rightarrow> Inl e
              | Inr peaks \<Rightarrow>
                  if numCPU = 0 then Inl IntegerDivideByZero
                  else
                    (case work_chunks buckets numCPU of
                       (numWorkers, bucketsPerWorker) \<Rightarrow>
                         run_workers F samples samplesPerBucket mode buckets numWorkers
                           bucketsPerWorker sched peaks)))"

subsection \<open>NewFromSamples and UpdateConfig\<close>

definition NewFromSamples ::
    "'f float64_ops \<Rightarrow> int \<Rightarrow> nat list \<Rightarrow> int16 list \<Rightarrow> 'f Config option \<Rightarrow> panic + 'f Waveform" where
  "NewFromSamples F numCPU sched samples config =
     (let config = (case config of None \<Rightarrow> DefaultConfig F | Some c \<Rightarrow> c)
      in case (if Concurrent config
               then downsampleConcurrent F numCPU sched samples (Bars config) (Mode config)
               else downsample F samples (Bars config) (Mode config)) of
           Inl e \<Rightarrow> Inl e
         | Inr peaks \<Rightarrow> Inr \<lparr>Peaks = peaks, Config = Some config\<rparr>)"

text \<open>
  \<open>UpdateConfig\<close> changes the waveform in place, so it returns the waveform as the call
  leaves it, and the panic that ended the call if there was one.
\<close>

definition UpdateConfig ::
    "'f float64_ops \<Rightarrow> int \<Rightarrow> nat list \<Rightarrow> 'f Waveform \<Rightarrow> 'f Config option \<Rightarrow> int16 list option \<Rightarrow>
     'f Waveform \<times> panic option" where
  "UpdateConfig F numCPU sched w config samples =
     (case Config w of
        None \<Rightarrow> (w, Some NilDereference)
      | Some oldConfig \<Rightarrow>
          let oldMode = Mode oldConfig;
              w = w\<lparr>Config := config\<rparr>
          in (case config of
                None \<Rightarrow> (w, Some NilDereference)
              | Some config \<Rightarrow>
                  if oldMode \<noteq> Mode config \<and> samples \<noteq> None
                  then (case (if Concurrent config
                              then downsampleConcurrent F numCPU sched (the samples) (Bars config) (Mode config)
                              else downsample F (the samples) (Bars config) (Mode config)) of
                          Inl e \<Rightarrow> (w, Some e)
                        | Inr peaks \<Rightarrow> (w\<lparr>Peaks := peaks\<rparr>, None))
                  else (w, None)))"

section \<open>What the package is specified to compute\<close>

text \<open>
  The bucket partition in the words of the specification: \<open>bucketSize\<close> is
  \<open>floor(N / B)\<close>, clamped up to 1 when it is 0, and bucket \<open>i\<close> spans
  \<open>[i * bucketSize, min((i + 1) * bucketSize, N))\<close>. \<open>bucket_value\<close> is the loudness of
  bucket \<open>i\<close>.
\<close>

definition bucketSize :: "int \<Rightarrow> int \<Rightarrow> int" where
  "bucketSize N B = (if N div B = 0 then 1 else N div B)"

definition bucket_value ::
    "'f float64_ops \<Rightarrow> int16 list \<Rightarrow> int \<Rightarrow> CalculationMode \<Rightarrow> int \<Rightarrow> panic + 'f" where
  "bucket_value F samples B mode i =
     calculateLoudness F samples (i * bucketSize (len samples) B)
       (min ((i + 1) * bucketSize (len samples) B) (len samples)) mode"

definition bucket_start :: "int \<Rightarrow> int \<Rightarrow> int \<Rightarrow> int" where
  "bucket_start N B i = i * bucketSize N B"

definition bucket_end :: "int \<Rightarrow> int \<Rightarrow> int \<Rightarrow> int" where
  "bucket_end N B i = min ((i + 1) * bucketSize N B) N"

subsection \<open>The LUFS calculator and the fast square root, as specified\<close>

text \<open>
  The LUFS calculator in the words of the specification. The samples of the range are
  normalized with \<open>invMax = 1/32768\<close>; the pre-emphasis is
  \<open>filtered = sample - 0.85 * prevSample\<close> with \<open>prevSample\<close> seeded at 0 and updated every
  step; each filtered magnitude \<open>m\<close> is scaled to \<open>m^2 * (1 + 0.5 * m)\<close>; the scaled values
  are summed, the mean is square-rooted by \<open>fastSqrt\<close> to \<open>v\<close>, and the result is
  \<open>v^2 * 2\<close> if \<open>v > 0.1\<close> and \<open>v * 0.5\<close> otherwise. Products are written with the
  operands in the order of the code (float64 multiplication is commutative).
\<close>

definition spec_normalized :: "'f float64_ops \<Rightarrow> int16 list \<Rightarrow> int \<Rightarrow> int \<Rightarrow> 'f list" where
  "spec_normalized F samples start end =
     map (\<lambda>s. fmul F (float64 F (sint s)) (fconst F (1 / 32768)))
       (take (nat (end - start)) (drop (nat start) samples))"

fun spec_filtered :: "'f float64_ops \<Rightarrow> 'f \<Rightarrow> 'f list \<Rightarrow> 'f list" where
  "spec_filtered F prevSample [] = []"
| "spec_filtered F prevSample (sample # rest) =
     fsub F sample (fmul F (fconst F 0.85) prevSample) # spec_filtered F sample rest"

definition spec_magnitude :: "'f float64_ops \<Rightarrow> 'f \<Rightarrow> 'f" where
  \<comment> \<open>the magnitude \<open>|x|\<close>: \<open>- x\<close> for a negative \<open>x\<close>, and \<open>x\<close> otherwise\<close>
  "spec_magnitude F x = (if flt F x (fconst F 0) then fneg F x else x)"

definition spec_scaled :: "'f float64_ops \<Rightarrow> 'f \<Rightarrow> 'f" where
  "spec_scaled F m = fmul F (fmul F m m) (fadd F (fconst F 1) (fmul F m (fconst F 0.5)))"

definition spec_LUFS :: "'f float64_ops \<Rightarrow> 'f list \<Rightarrow> 'f" where
  "spec_LUFS F xs =
     (let total = foldl (fadd F) (fconst F 0)
                    (map (\<lambda>filtered. spec_scaled F (spec_magnitude F filtered)) (spec_filtered F (fconst F 0) xs));
          v = fastSqrt F (fdiv F total (float64 F (len xs)))
      in if fgt F v (fconst F 0.1) then fmul F (fmul F v v) (fconst F 2) else fmul F v (fconst F 0.5))"

text \<open>
  The fast square root in the words of the specification: the initial estimate is the
  double whose bits are \<open>magic - (bits >> 1)\<close>, for the bits of \<open>x\<close> as an unsigned 64-bit
  integer, and one Newton-Raphson step refines \<open>y\<close> to \<open>y * (1.5 - 0.5 * x * y^2)\<close>.
\<close>

definition spec_estimate :: "'f float64_ops \<Rightarrow> 'f \<Rightarrow> 'f" where
  "spec_estimate F x = Float64frombits F (0x5fe6eb50c7b537a9 - drop_bit 1 (Float64bits F x))"

definition spec_refine :: "'f float64_ops \<Rightarrow> 'f \<Rightarrow> 'f \<Rightarrow> 'f" where
  "spec_refine F x y = fmul F y (fsub F (fconst F 1.5) (fmul F (fmul F (fmul F (fconst F 0.5) x) y) y))"

subsection \<open>Invariant of the running workers\<close>

text \<open>
  A bucket is pending while some worker of the list \<open>ws\<close> has it between its loop
  counter and its end bucket. While the goroutines run, every bucket is pending or already
  holds its value.
\<close>

definition pending :: "int \<Rightarrow> int \<Rightarrow> int \<Rightarrow> int list \<Rightarrow> nat list \<Rightarrow> int \<Rightarrow> bool" where
  "pending B W bpw counters ws b \<longleftrightarrow>
     (\<exists>w \<in> set ws. counters ! w \<le> b \<and> b < worker_endBucket B W bpw (int w))"

definition workers_inv :: "(int \<Rightarrow> 'f) \<Rightarrow> int \<Rightarrow> int \<Rightarrow> int \<Rightarrow> 'f list \<times> int list \<Rightarrow> bool" where
  "workers_inv v B W bpw st \<longleftrightarrow>
     (case st of (peaks, counters) \<Rightarrow>
        length peaks = nat B \<and> length counters = nat W \<and> (\<forall>w < nat W. 0 \<le> counters ! w) \<and>
        (\<forall>b. 0 \<le> b \<and> b < B \<longrightarrow> pending B W bpw counters [0 ..< nat W] b \<or> peaks ! nat b = v b))"

section \<open>Loops and calculators never panic inside the slice\<close>

lemma for_loop_ge: "e \<le> i \<Longrightarrow> for_loop i e body s = Inr s"
  by (simp add: for_loop.simps)

lemma for_loop_total:
  assumes "\<And>j s. i \<le> j \<Longrightarrow> j < e \<Longrightarrow> \<exists>s'. body j s = Inr s'"
  shows "\<exists>s'. for_loop i e body s = Inr s'"
  using assms
proof (induction i e body s rule: for_loop.induct)
  case (1 i e body s)
  show ?case
  proof (cases "i < e")
    case True
    then obtain s1 where b: "body i s = Inr s1" using "1.prems"[of i s] by auto
    have "\<exists>s'. for_loop (i + 1) e body s1 = Inr s'"
      by (rule "1.IH"[OF True b]) (use "1.prems" in auto)
    then show ?thesis using True b by (subst for_loop.simps) simp
  next
    case False
    then show ?thesis by (simp add: for_loop.simps)
  qed
qed

lemma sample_at_Inr:
  "0 \<le> i \<Longrightarrow> i < len samples \<Longrightarrow> \<exists>v. sample_at F samples i = Inr v"
  by (simp add: sample_at_def index_def)

lemma calculateLUFS_total:
  assumes "0 \<le> start" "end \<le> len samples"
  shows "\<exists>v. calculateLUFS F samples start end = Inr v"
proof -
  have "\<exists>s'. for_loop start end (calculateLUFS_body F samples) s = Inr s'" for s
  proof (rule for_loop_total)
    fix j st assume "start \<le> j" "j < end"
    then obtain v where "sample_at F samples j = Inr v"
      using sample_at_Inr[of j samples F] assms by auto
    then show "\<exists>s'. calculateLUFS_body F samples j st = Inr s'"
      by (cases st) (simp add: calculateLUFS_body_def Let_def)
  qed
  then obtain s' where "for_loop start end (calculateLUFS_body F samples) (fconst F 0, fconst F 0) = Inr s'"
    by blast
  then show ?thesis
    by (cases s') (simp add: calculateLUFS_def Let_def)
qed


lemma calculatePeak_total:
  assumes "0 \<le> start" "end \<le> len samples"
  shows "\<exists>v. calculatePeak F samples start end = Inr v"
proof -
  have "\<exists>s'. for_loop start end (calculatePeak_body F samples) s = Inr s'" for s
  proof (rule for_loop_total)
    fix j st assume "start \<le> j" "j < end"
    then obtain v where "sample_at F samples j = Inr v"
      using sample_at_Inr[of j samples F] assms by auto
    then show "\<exists>s'. calculatePeak_body F samples j st = Inr s'"
      by (simp add: calculatePeak_body_def Let_def)
  qed
  then show ?thesis
    by (simp add: calculatePeak_def)
qed

lemma calculateVU_total:
  assumes "0 \<le> start" "end \<le> len samples"
  shows "\<exists>v. calculateVU F samples start end = Inr v"
proof -
  have "\<exists>s'. for_loop start end (calculateVU_body F samples) s = Inr s'" for s
  proof (rule for_loop_total)
    fix j st assume "start \<le> j" "j < end"
    then obtain v where "sample_at F samples j = Inr v"
      using sample_at_Inr[of j samples F] assms by auto
    then show "\<exists>s'. calculateVU_body F samples j st = Inr s'"
      by (simp add: calculateVU_body_def Let_def)
  qed
  then obtain s' where "for_loop start end (calculateVU_body F samples) (fconst F 0) = Inr s'"
    by blast
  then show ?thesis
    by (simp add: calculateVU_def Let_def)
qed

lemma calculateSmooth_total:
  assumes "0 \<le> start" "end \<le> len samples"
  shows "\<exists>v. calculateSmooth F samples start end = Inr v"
proof -
  have "\<exists>s'. for_loop start end (calculateSmooth_body F samples) s = Inr s'" for s
  proof (rule for_loop_total)
    fix j st assume "start \<le> j" "j < end"
    then obtain v where "sample_at F samples j = Inr v"
      using sample_at_Inr[of j samples F] assms by auto
    then show "\<exists>s'. calculateSmooth_body F samples j st = Inr s'"
      by (cases st) (simp add: calculateSmooth_body_def Let_def)
  qed
  then obtain s' where "for_loop start end (calculateSmooth_body F samples) (fconst F 0, fconst F 0.0) = Inr s'"
    by blast
  then show ?thesis
    by (cases s') (simp add: calculateSmooth_def Let_def)
qed

lemma calculateDynamic_total:
  assumes "0 \<le> start" "end \<le> len samples"
  shows "\<exists>v. calculateDynamic F samples start end = Inr v"
proof -
  have "\<exists>s'. for_loop start end (calculateDynamic_body1 F samples) s = Inr s'" for s
  proof (rule for_loop_total)
    fix j st assume "start \<le> j" "j < end"
    then obtain v where "sample_at F samples j = Inr v"
      using sample_at_Inr[of j samples F] assms by auto
    then show "\<exists>s'. calculateDynamic_body1 F samples j st = Inr s'"
      by (simp add: calculateDynamic_body1_def Let_def)
  qed
  then obtain m where m: "for_loop start end (calculateDynamic_body1 F samples) (fconst F 0) = Inr m"
    by blast
  have "\<exists>s'. for_loop start end (calculateDynamic_body2 F samples mean) s = Inr s'" for s mean
  proof (rule for_loop_total)
    fix j st assume "start \<le> j" "j < end"
    then obtain v where "sample_at F samples j = Inr v"
      using sample_at_Inr[of j samples F] assms by auto
    then show "\<exists>s'. calculateDynamic_body2 F samples mean j st = Inr s'"
      by (cases st) (simp add: calculateDynamic_body2_def Let_def)
  qed
  then obtain s' where "for_loop start end
      (calculateDynamic_body2 F samples (fdiv F m (float64 F (end - start)))) (fconst F 0, fconst F 0) = Inr s'"
    by blast
  with m show ?thesis
    by (cases s') (simp add: calculateDynamic_def Let_def)
qed

lemma calculateRMS_block_total:
  assumes "0 \<le> i" "i + 7 < len samples"
  shows "\<exists>v. calculateRMS_block F samples i = Inr v"
proof -
  have "\<exists>v. sample_at F samples (i + k) = Inr v" if "0 \<le> k" "k \<le> 7" for k
    using sample_at_Inr[of "i + k" samples F] assms that by auto
  from this[of 0] this[of 1] this[of 2] this[of 3] this[of 4] this[of 5] this[of 6] this[of 7]
  show ?thesis
    by (auto simp: calculateRMS_block_def and_then_def)
qed

lemma calculateRMS_unrolled_total:
  assumes "0 \<le> i" "e \<le> len samples"
  shows "\<exists>i' s'. calculateRMS_unrolled F samples i e s = Inr (i', s') \<and> i \<le> i'"
  using assms
proof (induction F samples i e s rule: calculateRMS_unrolled.induct)
  case (1 F samples i e s)
  show ?case
  proof (cases "i \<le> e - 8")
    case True
    then obtain blk where b: "calculateRMS_block F samples i = Inr blk"
      using calculateRMS_block_total[of i samples F] "1.prems" by auto
    have "\<exists>i' s'. calculateRMS_unrolled F samples (i + 8) e (fadd F s blk) = Inr (i', s') \<and> i + 8 \<le> i'"
      by (rule "1.IH"[OF True b]) (use "1.prems" in auto)
    then show ?thesis using True b by (subst calculateRMS_unrolled.simps) auto
  next
    case False
    then show ?thesis by (simp add: calculateRMS_unrolled.simps)
  qed
qed

lemma calculateRMS_total:
  assumes "0 \<le> start" "end \<le> len samples"
  shows "\<exists>v. calculateRMS F samples start end = Inr v"
proof -
  obtain i s where u: "calculateRMS_unrolled F samples start end (fconst F 0) = Inr (i, s)" "start \<le> i"
    using calculateRMS_unrolled_total[OF assms, where F=F and s="fconst F 0"] by blast
  have "\<exists>s'. for_loop i end (calculateRMS_body F samples) s = Inr s'"
  proof (rule for_loop_total)
    fix j st assume "i \<le> j" "j < end"
    then obtain v where "sample_at F samples j = Inr v"
      using sample_at_Inr[of j samples F] assms u by auto
    then show "\<exists>s'. calculateRMS_body F samples j st = Inr s'"
      by (simp add: calculateRMS_body_def)
  qed
  with u show ?thesis
    by (auto simp: calculateRMS_def Let_def)
qed

lemma calculateLoudness_total:
  assumes "0 \<le> start" "end \<le> len samples"
  shows "\<exists>v. calculateLoudness F samples start end mode = Inr v"
  by (simp add: calculateLoudness_def calculateRMS_total[OF assms] calculateLUFS_total[OF assms]
      calculatePeak_total[OF assms] calculateVU_total[OF assms] calculateDynamic_total[OF assms]
      calculateSmooth_total[OF assms])

lemma calculateLoudness_empty:
  "end \<le> start \<Longrightarrow> calculateLoudness F samples start end mode = Inr (fconst F 0)"
  by (simp add: calculateLoudness_def calculateRMS_def calculateLUFS_def calculatePeak_def
      calculateVU_def calculateDynamic_def calculateSmooth_def)

section \<open>The sequential loop fills every bucket\<close>

lemma for_loop_store:
  assumes "\<And>b p. i \<le> b \<Longrightarrow> b < e \<Longrightarrow> body b p = store p b (v b)"
    and "0 \<le> i" "e \<le> len peaks"
  shows "\<exists>peaks'. for_loop i e body peaks = Inr peaks' \<and> length peaks' = length peaks \<and>
           (\<forall>k < length peaks. peaks' ! k = (if i \<le> int k \<and> int k < e then v (int k) else peaks ! k))"
  using assms
proof (induction i e body peaks rule: for_loop.induct)
  case (1 i e body peaks)
  show ?case
  proof (cases "i < e")
    case True
    let ?p = "peaks[nat i := v i]"
    have b: "body i peaks = Inr ?p"
      using "1.prems" True by (simp add: store_def len_def)
    have "\<exists>peaks'. for_loop (i + 1) e body ?p = Inr peaks' \<and> length peaks' = length ?p \<and>
           (\<forall>k < length ?p. peaks' ! k = (if i + 1 \<le> int k \<and> int k < e then v (int k) else ?p ! k))"
      by (rule "1.IH"[OF True b]) (use "1.prems" in \<open>auto simp: len_def\<close>)
    then obtain peaks' where p: "for_loop (i + 1) e body ?p = Inr peaks'" "length peaks' = length peaks"
      "\<And>k. k < length peaks \<Longrightarrow> peaks' ! k = (if i + 1 \<le> int k \<and> int k < e then v (int k) else ?p ! k)"
      by auto
    have "peaks' ! k = (if i \<le> int k \<and> int k < e then v (int k) else peaks ! k)" if "k < length peaks" for k
    proof (cases "int k = i")
      case True
      then have "k = nat i" by simp
      with p(3)[OF that] True \<open>i < e\<close> that show ?thesis by simp
    next
      case False
      then have "nat i \<noteq> k" using "1.prems"(2) by auto
      with p(3)[OF that] False show ?thesis by auto
    qed
    with p(1,2) True b show ?thesis by (subst for_loop.simps) simp
  next
    case False
    then show ?thesis by (auto simp: for_loop.simps)
  qed
qed

lemma sdiv_pos: "0 \<le> a \<Longrightarrow> 0 < b \<Longrightarrow> a sdiv b = a div (b::int)"
  by (simp add: signed_divide_int_def sgn_if)

lemma bucketSize_pos: "0 \<le> N \<Longrightarrow> 0 < B \<Longrightarrow> 0 < bucketSize N B"
  by (auto simp: bucketSize_def div_int_pos_iff intro: order.strict_iff_order[THEN iffD2])

lemma bucket_value_total:
  assumes "0 < B" "0 \<le> i"
  shows "\<exists>v. bucket_value F samples B mode i = Inr v"
  unfolding bucket_value_def
  by (rule calculateLoudness_total) (use assms bucketSize_pos[of "len samples" B] in \<open>auto simp: len_def\<close>)


lemma downsample_body_store:
  assumes "0 < B" "0 \<le> b" "samples \<noteq> []"
  shows "downsample_body F samples (bucketSize (len samples) B) mode b p =
           store p b (projr (bucket_value F samples B mode b))"
proof -
  obtain v where v: "bucket_value F samples B mode b = Inr v"
    using bucket_value_total[OF assms(1,2), of F samples mode] by blast
  have "b * bucketSize (len samples) B + bucketSize (len samples) B = (b + 1) * bucketSize (len samples) B"
    by (simp add: algebra_simps)
  with v show ?thesis
    by (auto simp: downsample_body_def bucket_value_def Let_def min_def split: if_splits)
qed

lemma worker_body_store:
  assumes "0 < B" "0 \<le> b" "samples \<noteq> []"
  shows "worker_body F samples (bucketSize (len samples) B) mode b p =
           store p b (projr (bucket_value F samples B mode b))"
proof -
  obtain v where v: "bucket_value F samples B mode b = Inr v"
    using bucket_value_total[OF assms(1,2), of F samples mode] by blast
  have "b * bucketSize (len samples) B + bucketSize (len samples) B = (b + 1) * bucketSize (len samples) B"
    by (simp add: algebra_simps)
  with v show ?thesis
    by (auto simp: worker_body_def bucket_value_def Let_def min_def split: if_splits)
qed

lemma samplesPerBucket_eq:
  assumes "0 < B"
  shows "(if len samples sdiv B = 0 then 1 else len samples sdiv B) = bucketSize (len samples) B"
  using assms by (simp add: bucketSize_def sdiv_pos len_def)

lemma downsample_buckets:
  assumes "samples \<noteq> []" "0 < B"
  shows "downsample F samples B mode =
           Inr (map (\<lambda>k. projr (bucket_value F samples B mode (int k))) [0 ..< nat B])"
proof -
  let ?v = "\<lambda>b. projr (bucket_value F samples B mode b)"
  let ?z = "replicate (nat B) (fconst F 0)"
  have "\<exists>peaks'. for_loop 0 B (downsample_body F samples (bucketSize (len samples) B) mode) ?z = Inr peaks' \<and>
          length peaks' = length ?z \<and>
          (\<forall>k < length ?z. peaks' ! k = (if 0 \<le> int k \<and> int k < B then ?v (int k) else ?z ! k))"
  proof (rule for_loop_store)
    show "downsample_body F samples (bucketSize (len samples) B) mode b p = store p b (?v b)"
      if "0 \<le> b" "b < B" for b p
      using that assms by (simp add: downsample_body_store)
  qed (use assms in \<open>auto simp: len_def\<close>)
  then obtain peaks' where p: "for_loop 0 B (downsample_body F samples (bucketSize (len samples) B) mode) ?z = Inr peaks'"
    "length peaks' = nat B"
    and q: "\<forall>k < nat B. peaks' ! k = (if 0 \<le> int k \<and> int k < B then ?v (int k) else ?z ! k)"
    by auto
  have "peaks' ! k = ?v (int k)" if "k < nat B" for k
  proof -
    have "int k < B" using that by simp
    with q that show ?thesis by simp
  qed
  note p = p this
  have "peaks' = map (\<lambda>k. ?v (int k)) [0 ..< nat B]"
    by (rule nth_equalityI) (use p in auto)
  moreover have "len samples \<noteq> 0" using assms by (simp add: len_def)
  ultimately show ?thesis
    using p(1) assms(2) by (simp add: downsample_def Let_def make_slice_def samplesPerBucket_eq)
qed

section \<open>The workers fill every bucket\<close>

lemma worker_endBucket_le:
  assumes "0 < W" "0 < bpw" "W * bpw \<le> B" "0 \<le> w" "w < W"
  shows "worker_endBucket B W bpw w \<le> B"
proof (cases "w = W - 1")
  case True
  then show ?thesis by (simp add: worker_endBucket_def)
next
  case False
  then have "w + 1 \<le> W" using assms by simp
  then have "(w + 1) * bpw \<le> W * bpw" using assms(2) by (simp add: mult_right_mono)
  then show ?thesis using False assms(3) by (simp add: worker_endBucket_def algebra_simps)
qed

lemma int_div_bounds:
  assumes "0 < (c::int)"
  shows "(b div c) * c \<le> b" and "b < (b div c + 1) * c"
proof -
  define q where "q = c * (b div c)"
  have e: "b = q + b mod c" by (simp add: q_def)
  have "0 \<le> b mod c" "b mod c < c" using assms by simp_all
  with e have "q \<le> b" "b < q + c" by linarith+
  then show "(b div c) * c \<le> b" and "b < (b div c + 1) * c"
    by (simp_all add: q_def algebra_simps)
qed

lemma worker_cover:
  assumes "0 < W" "0 < bpw" "W * bpw \<le> B" "0 \<le> b" "b < B"
  shows "\<exists>w < nat W. worker_startBucket bpw (int w) \<le> b \<and> b < worker_endBucket B W bpw (int w)"
proof (cases "b div bpw < W - 1")
  case True
  let ?w = "b div bpw"
  have w0: "0 \<le> ?w" using assms by (simp add: pos_imp_zdiv_nonneg_iff)
  have "?w * bpw \<le> b" using assms(2) by (rule int_div_bounds)
  moreover have "b < (?w + 1) * bpw" using assms(2) by (rule int_div_bounds)
  ultimately have "worker_startBucket bpw (int (nat ?w)) \<le> b \<and> b < worker_endBucket B W bpw (int (nat ?w))"
    using True w0 by (simp add: worker_startBucket_def worker_endBucket_def algebra_simps)
  moreover have "nat ?w < nat W" using True w0 by simp
  ultimately show ?thesis by blast
next
  case False
  then have "W - 1 \<le> b div bpw" by simp
  then have "(W - 1) * bpw \<le> (b div bpw) * bpw" using assms(2) by (simp add: mult_right_mono)
  also have "\<dots> \<le> b" using assms(2) by (rule int_div_bounds)
  finally have "worker_startBucket bpw (int (nat (W - 1))) \<le> b \<and> b < worker_endBucket B W bpw (int (nat (W - 1)))"
    using assms by (simp add: worker_startBucket_def worker_endBucket_def)
  moreover have "nat (W - 1) < nat W" using assms by simp
  ultimately show ?thesis by blast
qed


lemma worker_round_inv:
  assumes inv: "workers_inv v B W bpw st"
    and W: "0 < W" "0 < bpw" "W * bpw \<le> B"
    and body: "\<And>b p. 0 \<le> b \<Longrightarrow> worker_body F samples spb mode b p = store p b (v b)"
  shows "\<exists>st'. worker_round F samples spb mode B W bpw w st = Inr st' \<and> workers_inv v B W bpw st'"
proof -
  obtain peaks counters where st: "st = (peaks, counters)" by (cases st)
  from inv st have lp: "length peaks = nat B" and lc: "length counters = nat W"
    and nn: "\<And>u. u < nat W \<Longrightarrow> 0 \<le> counters ! u"
    and cov: "\<And>b. 0 \<le> b \<Longrightarrow> b < B \<Longrightarrow> pending B W bpw counters [0 ..< nat W] b \<or> peaks ! nat b = v b"
    by (auto simp: workers_inv_def)
  let ?e = "worker_endBucket B W bpw (int w)"
  let ?b = "counters ! w"
  show ?thesis
  proof (cases "w < length counters \<and> ?b < ?e")
    case False
    then have "worker_round F samples spb mode B W bpw w st = Inr st"
      by (auto simp: worker_round_def st Let_def)
    with inv show ?thesis by simp
  next
    case True
    then have w: "w < nat W" and lt: "?b < ?e" using lc by auto
    have b0: "0 \<le> ?b" using nn[OF w] .
    have eB: "?e \<le> B" using worker_endBucket_le[OF W, of "int w"] w by simp
    have bB: "?b < B" using lt eB by simp
    let ?p = "peaks[nat ?b := v ?b]"
    let ?c = "counters[w := ?b + 1]"
    have r: "worker_round F samples spb mode B W bpw w st = Inr (?p, ?c)"
      using True b0 bB lp by (simp add: worker_round_def st Let_def body store_def len_def)
    have "pending B W bpw ?c [0 ..< nat W] b \<or> ?p ! nat b = v b" if "0 \<le> b" "b < B" for b
    proof (cases "b = ?b")
      case True
      then show ?thesis using b0 bB lp by simp
    next
      case nb: False
      from cov[OF that] show ?thesis
      proof
        assume "peaks ! nat b = v b"
        moreover have "nat b \<noteq> nat ?b" using nb b0 that by simp
        ultimately show ?thesis by simp
      next
        assume "pending B W bpw counters [0 ..< nat W] b"
        then obtain u where u: "u < nat W" "counters ! u \<le> b" "b < worker_endBucket B W bpw (int u)"
          by (auto simp: pending_def)
        have "?c ! u \<le> b"
        proof (cases "u = w")
          case True
          then show ?thesis using u nb lc w by simp
        next
          case False
          then show ?thesis using u by simp
        qed
        then show ?thesis using u by (auto simp: pending_def)
      qed
    qed
    moreover have "0 \<le> ?c ! u" if "u < nat W" for u
      using nn[OF that] b0 lc that by (cases "u = w") simp_all
    ultimately have "workers_inv v B W bpw (?p, ?c)"
      using lp lc by (simp add: workers_inv_def)
    with r show ?thesis by simp
  qed
qed

lemma for_each_sched_inv:
  assumes W: "0 < W" "0 < bpw" "W * bpw \<le> B"
    and body: "\<And>b p. 0 \<le> b \<Longrightarrow> worker_body F samples spb mode b p = store p b (v b)"
  shows "workers_inv v B W bpw st \<Longrightarrow>
    \<exists>st'. for_each sched (worker_round F samples spb mode B W bpw) st = Inr st' \<and> workers_inv v B W bpw st'"
proof (induction sched arbitrary: st)
  case Nil
  then show ?case by simp
next
  case (Cons w sched)
  obtain st1 where "worker_round F samples spb mode B W bpw w st = Inr st1" "workers_inv v B W bpw st1"
    using worker_round_inv[OF Cons.prems W body] by blast
  with Cons.IH[of st1] show ?case by simp
qed


lemma for_each_rest:
  assumes W: "0 < W" "0 < bpw" "W * bpw \<le> B"
    and body: "\<And>b p. 0 \<le> b \<Longrightarrow> worker_body F samples spb mode b p = store p b (v b)"
    and nn: "\<And>u. u < nat W \<Longrightarrow> 0 \<le> counters ! u"
  shows "length peaks = nat B \<Longrightarrow> \<forall>w \<in> set ws. w < nat W \<Longrightarrow>
    (\<And>b. 0 \<le> b \<Longrightarrow> b < B \<Longrightarrow> pending B W bpw counters ws b \<or> peaks ! nat b = v b) \<Longrightarrow>
    \<exists>peaks'. for_each ws (worker_rest F samples spb mode B W bpw counters) peaks = Inr peaks' \<and>
       length peaks' = nat B \<and> (\<forall>b. 0 \<le> b \<and> b < B \<longrightarrow> peaks' ! nat b = v b)"
proof (induction ws arbitrary: peaks)
  case Nil
  then show ?case by (simp add: pending_def)
next
  case (Cons w ws)
  let ?i = "counters ! w"
  let ?e = "worker_endBucket B W bpw (int w)"
  have w: "w < nat W" using Cons.prems(2) by simp
  have i0: "0 \<le> ?i" using nn[OF w] .
  have "0 < W * bpw" using W(1,2) by simp
  then have B0: "0 < B" using W(3) by simp
  have "?e \<le> B" using worker_endBucket_le[OF W, of "int w"] w by simp
  then have eB: "?e \<le> len peaks" using Cons.prems(1) B0 by (simp add: len_def)
  have "\<exists>peaks'. for_loop ?i ?e (worker_body F samples spb mode) peaks = Inr peaks' \<and>
          length peaks' = length peaks \<and>
          (\<forall>k < length peaks. peaks' ! k = (if ?i \<le> int k \<and> int k < ?e then v (int k) else peaks ! k))"
    by (rule for_loop_store) (use i0 eB body in auto)
  then obtain p1 where p1: "for_loop ?i ?e (worker_body F samples spb mode) peaks = Inr p1"
    "length p1 = nat B"
    and q: "\<And>k. k < nat B \<Longrightarrow> p1 ! k = (if ?i \<le> int k \<and> int k < ?e then v (int k) else peaks ! k)"
    using Cons.prems(1) by auto
  have "pending B W bpw counters ws b \<or> p1 ! nat b = v b" if "0 \<le> b" "b < B" for b
  proof -
    have k: "nat b < nat B" "int (nat b) = b" using that by simp_all
    from Cons.prems(3)[OF that] show ?thesis
    proof
      assume "peaks ! nat b = v b"
      then show ?thesis using q[OF k(1)] k(2) by simp
    next
      assume "pending B W bpw counters (w # ws) b"
      then show ?thesis using q[OF k(1)] k(2) by (auto simp: pending_def)
    qed
  qed
  then have "\<exists>peaks'. for_each ws (worker_rest F samples spb mode B W bpw counters) p1 = Inr peaks' \<and>
       length peaks' = nat B \<and> (\<forall>b. 0 \<le> b \<and> b < B \<longrightarrow> peaks' ! nat b = v b)"
    using Cons.IH[OF p1(2)] Cons.prems(2) by simp
  moreover have "worker_rest F samples spb mode B W bpw counters w peaks = Inr p1"
    using p1(1) by (simp add: worker_rest_def)
  ultimately show ?case by simp
qed

lemma run_workers_result:
  assumes W: "0 < W" "0 < bpw" "W * bpw \<le> B"
    and body: "\<And>b p. 0 \<le> b \<Longrightarrow> worker_body F samples spb mode b p = store p b (v b)"
    and peaks: "length peaks = nat B"
  shows "run_workers F samples spb mode B W bpw sched peaks = Inr (map (\<lambda>k. v (int k)) [0 ..< nat B])"
proof -
  let ?c0 = "map (\<lambda>w. worker_startBucket bpw (int w)) [0 ..< nat W]"
  have "pending B W bpw ?c0 [0 ..< nat W] b" if "0 \<le> b" "b < B" for b
    using worker_cover[OF W that] by (auto simp: pending_def)
  then have "workers_inv v B W bpw (peaks, ?c0)"
    using peaks W(2) by (simp add: workers_inv_def worker_startBucket_def)
  then obtain st' where s: "for_each sched (worker_round F samples spb mode B W bpw) (peaks, ?c0) = Inr st'"
    "workers_inv v B W bpw st'"
    using for_each_sched_inv[OF W body] by blast
  obtain p1 c1 where st': "st' = (p1, c1)" by (cases st')
  from s(2) st' have lp: "length p1 = nat B" and nn: "\<And>u. u < nat W \<Longrightarrow> 0 \<le> c1 ! u"
    and cov: "\<And>b. 0 \<le> b \<Longrightarrow> b < B \<Longrightarrow> pending B W bpw c1 [0 ..< nat W] b \<or> p1 ! nat b = v b"
    by (auto simp: workers_inv_def)
  have "\<exists>peaks'. for_each [0 ..< nat W] (worker_rest F samples spb mode B W bpw c1) p1 = Inr peaks' \<and>
       length peaks' = nat B \<and> (\<forall>b. 0 \<le> b \<and> b < B \<longrightarrow> peaks' ! nat b = v b)"
    by (rule for_each_rest[OF W body nn lp]) (use cov in auto)
  then obtain p2 where p2: "for_each [0 ..< nat W] (worker_rest F samples spb mode B W bpw c1) p1 = Inr p2"
    "length p2 = nat B" and all: "\<And>b. 0 \<le> b \<Longrightarrow> b < B \<Longrightarrow> p2 ! nat b = v b"
    by auto
  have "p2 = map (\<lambda>k. v (int k)) [0 ..< nat B]"
  proof (rule nth_equalityI)
    show "length p2 = length (map (\<lambda>k. v (int k)) [0 ..< nat B])" using p2(2) by simp
    show "p2 ! k = map (\<lambda>k. v (int k)) [0 ..< nat B] ! k" if "k < length p2" for k
      using all[of "int k"] that p2(2) by simp
  qed
  with s(1) st' p2(1) show ?thesis by (simp add: run_workers_def Let_def)
qed

lemma work_chunks_pos:
  assumes "0 < B" "0 < numCPU" "work_chunks B numCPU = (W, bpw)"
  shows "0 < W" and "0 < bpw" and "W * bpw \<le> B"
proof -
  let ?q = "B sdiv numCPU"
  have d: "?q = B div numCPU" using assms by (simp add: sdiv_pos)
  have q0: "0 \<le> ?q" using assms d by (simp add: pos_imp_zdiv_nonneg_iff)
  have le: "numCPU * ?q \<le> B"
    using int_div_bounds(1)[of numCPU B] assms d by (simp add: mult.commute)
  show "0 < W" and "0 < bpw" and "W * bpw \<le> B"
    using assms q0 le by (cases "?q = 0"; simp add: work_chunks_def Let_def)+
qed

lemma downsampleConcurrent_buckets:
  assumes "50000 \<le> len samples" "0 < B" "0 < numCPU"
  shows "downsampleConcurrent F numCPU sched samples B mode =
           Inr (map (\<lambda>k. projr (bucket_value F samples B mode (int k))) [0 ..< nat B])"
proof -
  have ne: "samples \<noteq> []" using assms(1) by (auto simp: len_def)
  obtain W bpw where wc: "work_chunks B numCPU = (W, bpw)" by (cases "work_chunks B numCPU")
  note W = work_chunks_pos[OF assms(2,3) wc]
  have "run_workers F samples (bucketSize (len samples) B) mode B W bpw sched (replicate (nat B) (fconst F 0))
      = Inr (map (\<lambda>k. projr (bucket_value F samples B mode (int k))) [0 ..< nat B])"
    by (rule run_workers_result[OF W]) (use assms ne in \<open>simp_all add: worker_body_store\<close>)
  then show ?thesis
    using assms wc by (simp add: downsampleConcurrent_def Let_def make_slice_def samplesPerBucket_eq)
qed

lemma downsampleConcurrent_small:
  "len samples < 50000 \<Longrightarrow> downsampleConcurrent F numCPU sched samples B mode = downsample F samples B mode"
  by (simp add: downsampleConcurrent_def downsample_def Let_def)

section \<open>Length of the peak sequence\<close>

text \<open>
  C1. Whatever the samples, the bucket count \<open>B\<close> and the mode: \<open>downsample\<close> and
  \<open>downsampleConcurrent\<close> return \<open>B\<close> peaks when there is at least one sample and
  \<open>B > 0\<close>, and the empty result when there is no sample or \<open>B = 0\<close>. This holds for
  every schedule of the goroutines and every positive number of CPUs.
\<close>

theorem downsample_length:
  assumes "0 < numCPU"
  shows "(0 < len samples \<and> 0 < B \<longrightarrow>
            (\<exists>peaks. downsample F samples B mode = Inr peaks \<and> len peaks = B) \<and>
            (\<exists>peaks. downsampleConcurrent F numCPU sched samples B mode = Inr peaks \<and> len peaks = B)) \<and>
         (len samples = 0 \<or> B = 0 \<longrightarrow>
            downsample F samples B mode = Inr [] \<and>
            downsampleConcurrent F numCPU sched samples B mode = Inr [])"
proof -
  have "downsample F samples B mode = Inr [] \<and> downsampleConcurrent F numCPU sched samples B mode = Inr []"
    if "len samples = 0 \<or> B = 0"
    using that by (auto simp: downsample_def downsampleConcurrent_def)
  moreover have "(\<exists>peaks. downsample F samples B mode = Inr peaks \<and> len peaks = B) \<and>
            (\<exists>peaks. downsampleConcurrent F numCPU sched samples B mode = Inr peaks \<and> len peaks = B)"
    if "0 < len samples" "0 < B"
  proof -
    have ne: "samples \<noteq> []" using that(1) by (auto simp: len_def)
    have d: "\<exists>peaks. downsample F samples B mode = Inr peaks \<and> len peaks = B"
      using that(2) by (simp add: downsample_buckets[OF ne that(2)] len_def)
    show ?thesis
    proof (cases "len samples < 50000")
      case True
      with d show ?thesis by (simp add: downsampleConcurrent_small)
    next
      case False
      then have "50000 \<le> len samples" by simp
      from downsampleConcurrent_buckets[OF this that(2) assms, of F sched mode] d that(2)
      show ?thesis by (simp add: len_def)
    qed
  qed
  ultimately show ?thesis by blast
qed

theorem downsample_length_witness:
  "\<forall>F. (\<exists>peaks. downsample F [1, 2, 3, 4, 5] 2 ModeRMS = Inr peaks \<and> len peaks = 2) \<and>
       (\<exists>peaks. downsampleConcurrent F 8 [1, 0, 1] (replicate 50000 7) 3 ModePeak = Inr peaks \<and> len peaks = 3) \<and>
       downsample F [] 4 ModeVU = Inr [] \<and>
       downsampleConcurrent F 8 [] [1, 2, 3] 0 ModeVU = Inr []"
proof
  fix F :: "'f float64_ops"
  have a: "(0::int) < 8" by simp
  show "(\<exists>peaks. downsample F [1, 2, 3, 4, 5] 2 ModeRMS = Inr peaks \<and> len peaks = 2) \<and>
       (\<exists>peaks. downsampleConcurrent F 8 [1, 0, 1] (replicate 50000 7) 3 ModePeak = Inr peaks \<and> len peaks = 3) \<and>
       downsample F [] 4 ModeVU = Inr [] \<and>
       downsampleConcurrent F 8 [] [1, 2, 3] 0 ModeVU = Inr []"
    using downsample_length[OF a, of "[1, 2, 3, 4, 5]" 2 F ModeRMS "[]"]
      downsample_length[OF a, of "replicate 50000 7" 3 F ModePeak "[1, 0, 1]"]
      downsample_length[OF a, of "[]" 4 F ModeVU "[]"]
      downsample_length[OF a, of "[1, 2, 3]" 0 F ModeVU "[]"]
    by (simp add: len_def)
qed

section \<open>Bucket boundaries\<close>

lemma all_less_3: "(\<forall>i < (3::nat). P i) \<longleftrightarrow> P 0 \<and> P 1 \<and> P 2"
proof -
  have "i < 3 \<longleftrightarrow> i = 0 \<or> i = 1 \<or> i = 2" for i :: nat by arith
  then show ?thesis by auto
qed

text \<open>
  C3. For \<open>N > 0\<close> samples and \<open>B > 0\<close> buckets, \<open>downsample\<close> computes bucket \<open>i\<close>
  (for \<open>i\<close> in \<open>[0, B)\<close>) from the range \<open>[i * bucketSize, min((i + 1) * bucketSize, N))\<close>,
  where \<open>bucketSize\<close> is \<open>floor(N / B)\<close> clamped up to 1 when it is 0: peak \<open>i\<close> is the
  loudness of exactly that range. No bucket is longer than \<open>bucketSize\<close>: the remainder
  of the division goes to no bucket.
\<close>

theorem downsample_bucket_boundaries:
  assumes "0 < len samples" and "0 < B"
  shows "\<exists>peaks. downsample F samples B mode = Inr peaks \<and> len peaks = B \<and>
           (\<forall>i < nat B.
              calculateLoudness F samples (bucket_start (len samples) B (int i))
                (bucket_end (len samples) B (int i)) mode = Inr (peaks ! i) \<and>
              bucket_end (len samples) B (int i) - bucket_start (len samples) B (int i)
                \<le> bucketSize (len samples) B)"
proof -
  have ne: "samples \<noteq> []" using assms(1) by (auto simp: len_def)
  let ?peaks = "map (\<lambda>k. projr (bucket_value F samples B mode (int k))) [0 ..< nat B]"
  have "calculateLoudness F samples (bucket_start (len samples) B (int i))
          (bucket_end (len samples) B (int i)) mode = Inr (?peaks ! i)" if "i < nat B" for i
  proof -
    obtain v where "bucket_value F samples B mode (int i) = Inr v"
      using bucket_value_total[OF assms(2), of "int i" F samples mode] by auto
    then show ?thesis using that by (simp add: bucket_value_def bucket_start_def bucket_end_def)
  qed
  moreover have "bucket_end (len samples) B (int i) - bucket_start (len samples) B (int i)
                \<le> bucketSize (len samples) B" for i
    by (simp add: bucket_start_def bucket_end_def algebra_simps)
  ultimately show ?thesis
    using downsample_buckets[OF ne assms(2), of F mode] assms(2) by (simp add: len_def)
qed

theorem downsample_bucket_boundaries_witness:
  "\<forall>F. \<exists>peaks. downsample F [1, 2, 3, 4, 5, 6, 7, 8] 3 ModePeak = Inr peaks \<and> len peaks = 3 \<and>
         calculateLoudness F [1, 2, 3, 4, 5, 6, 7, 8] 0 2 ModePeak = Inr (peaks ! 0) \<and>
         calculateLoudness F [1, 2, 3, 4, 5, 6, 7, 8] 2 4 ModePeak = Inr (peaks ! 1) \<and>
         calculateLoudness F [1, 2, 3, 4, 5, 6, 7, 8] 4 6 ModePeak = Inr (peaks ! 2)"
proof
  fix F :: "'f float64_ops"
  have a: "0 < len [1, 2, 3, 4, 5, 6, 7, 8 :: int16]" and b: "(0::int) < 3"
    by (simp_all add: len_def)
  show "\<exists>peaks. downsample F [1, 2, 3, 4, 5, 6, 7, 8] 3 ModePeak = Inr peaks \<and> len peaks = 3 \<and>
         calculateLoudness F [1, 2, 3, 4, 5, 6, 7, 8] 0 2 ModePeak = Inr (peaks ! 0) \<and>
         calculateLoudness F [1, 2, 3, 4, 5, 6, 7, 8] 2 4 ModePeak = Inr (peaks ! 1) \<and>
         calculateLoudness F [1, 2, 3, 4, 5, 6, 7, 8] 4 6 ModePeak = Inr (peaks ! 2)"
    using downsample_bucket_boundaries[OF a b, of F ModePeak]
    by (auto simp: all_less_3 bucket_start_def bucket_end_def bucketSize_def len_def)
qed

section \<open>The concurrent path agrees with the sequential path\<close>

lemma worker_unique:
  assumes "0 < bpw" "0 \<le> w" "w < w'" "w' < W"
    and "worker_startBucket bpw w \<le> b" "b < worker_endBucket B W bpw w"
    and "worker_startBucket bpw w' \<le> b"
  shows False
proof -
  have "w \<noteq> W - 1" using assms by simp
  then have "b < (w + 1) * bpw" using assms(6) by (simp add: worker_endBucket_def algebra_simps)
  moreover have "(w + 1) * bpw \<le> w' * bpw" using assms(1,3) by (simp add: mult_right_mono)
  ultimately show False using assms(7) by (simp add: worker_startBucket_def)
qed

lemma worker_exactly_once:
  assumes "0 < W" "0 < bpw" "W * bpw \<le> B" "0 \<le> b" "b < B"
  shows "\<exists>!w. 0 \<le> w \<and> w < W \<and> worker_startBucket bpw w \<le> b \<and> b < worker_endBucket B W bpw w"
proof -
  obtain u where u: "u < nat W" "worker_startBucket bpw (int u) \<le> b" "b < worker_endBucket B W bpw (int u)"
    using worker_cover[OF assms] by blast
  show ?thesis
  proof (rule ex1I[of _ "int u"])
    show "0 \<le> int u \<and> int u < W \<and> worker_startBucket bpw (int u) \<le> b \<and> b < worker_endBucket B W bpw (int u)"
      using u by simp
  next
    fix w assume w: "0 \<le> w \<and> w < W \<and> worker_startBucket bpw w \<le> b \<and> b < worker_endBucket B W bpw w"
    have iu: "int u < W" using u(1) by simp
    show "w = int u"
    proof (rule ccontr)
      assume "w \<noteq> int u"
      then consider "w < int u" | "int u < w" by linarith
      then show False
      proof cases
        case 1
        then show False using worker_unique[OF assms(2) _ 1 iu, of b B] w u by simp
      next
        case 2
        then show False using worker_unique[OF assms(2) _ 2, of W b B] w u by simp
      qed
    qed
  qed
qed

lemma downsampleConcurrent_downsample:
  assumes "0 < numCPU"
  shows "downsampleConcurrent F numCPU sched samples B mode = downsample F samples B mode"
proof (cases "len samples < 50000")
  case True
  then show ?thesis by (rule downsampleConcurrent_small)
next
  case False
  then have big: "50000 \<le> len samples" by simp
  then have ne: "samples \<noteq> []" by (auto simp: len_def)
  consider "B < 0" | "B = 0" | "0 < B" by linarith
  then show ?thesis
  proof cases
    case 1
    with big show ?thesis
      by (simp add: downsampleConcurrent_def downsample_def make_slice_def Let_def)
  next
    case 2
    then show ?thesis by (simp add: downsampleConcurrent_def downsample_def)
  next
    case 3
    show ?thesis
      by (simp add: downsampleConcurrent_buckets[OF big 3 assms] downsample_buckets[OF ne 3])
  qed
qed

lemma work_chunks_partition:
  assumes "0 < numCPU" and B: "0 < B"
  shows "case work_chunks B numCPU of
           (numWorkers, bucketsPerWorker) \<Rightarrow>
             (bucketsPerWorker = B div numCPU \<or> B < numCPU \<and> numWorkers = B \<and> bucketsPerWorker = 1) \<and>
             (\<forall>bucket. 0 \<le> bucket \<and> bucket < B \<longrightarrow>
                (\<exists>!w. 0 \<le> w \<and> w < numWorkers \<and>
                      worker_startBucket bucketsPerWorker w \<le> bucket \<and>
                      bucket < worker_endBucket B numWorkers bucketsPerWorker w))"
proof -
  obtain W bpw where wc: "work_chunks B numCPU = (W, bpw)" by (cases "work_chunks B numCPU")
  note W = work_chunks_pos[OF B assms(1) wc]
  have d: "B sdiv numCPU = B div numCPU" using B assms by (simp add: sdiv_pos)
  have "bpw = B div numCPU \<or> B < numCPU \<and> W = B \<and> bpw = 1"
  proof (cases "B div numCPU = 0")
    case True
    then have "B < numCPU" using int_div_bounds(2)[OF assms(1), of B] by simp
    with True wc d show ?thesis by (simp add: work_chunks_def Let_def)
  next
    case False
    with wc d show ?thesis by (auto simp: work_chunks_def Let_def)
  qed
  with worker_exactly_once[OF W] wc show ?thesis by simp
qed

text \<open>
  C2. For every sample sequence, bucket count \<open>B\<close> and mode, \<open>downsampleConcurrent\<close>
  returns exactly what \<open>downsample\<close> returns, whatever the schedule of the goroutines:
  below 50,000 samples because it calls \<open>downsample\<close>, and from 50,000 samples on because
  the work chunks cover the buckets. There \<open>bucketsPerWorker\<close> is \<open>floor(B / numCPU)\<close>
  (or 1, with \<open>B\<close> workers, when there are more CPUs than buckets), the last worker takes
  the buckets up to \<open>B\<close>, and every bucket in \<open>[0, B)\<close> belongs to exactly one worker.
\<close>

theorem downsampleConcurrent_eq_downsample:
  assumes "0 < numCPU"
  shows "downsampleConcurrent F numCPU sched samples B mode = downsample F samples B mode \<and>
         (0 < B \<longrightarrow>
            (case work_chunks B numCPU of
               (numWorkers, bucketsPerWorker) \<Rightarrow>
                 (bucketsPerWorker = B div numCPU \<or> B < numCPU \<and> numWorkers = B \<and> bucketsPerWorker = 1) \<and>
                 (\<forall>bucket. 0 \<le> bucket \<and> bucket < B \<longrightarrow>
                    (\<exists>!w. 0 \<le> w \<and> w < numWorkers \<and>
                          worker_startBucket bucketsPerWorker w \<le> bucket \<and>
                          bucket < worker_endBucket B numWorkers bucketsPerWorker w))))"
  using downsampleConcurrent_downsample[OF assms, of F sched samples B mode]
    work_chunks_partition[OF assms, of B] by simp

theorem downsampleConcurrent_eq_downsample_witness:
  "\<forall>F. downsampleConcurrent F 4 [3, 0, 3, 1, 2, 3] (replicate 50000 5) 10 ModeLUFS
          = downsample F (replicate 50000 5) 10 ModeLUFS \<and>
       downsampleConcurrent F 4 [1, 0] [1, 2, 3] 2 ModeRMS = downsample F [1, 2, 3] 2 ModeRMS \<and>
       work_chunks 10 4 = (4, 2) \<and>
       (\<exists>!w. 0 \<le> w \<and> w < 4 \<and> worker_startBucket 2 w \<le> 9 \<and> 9 < worker_endBucket 10 4 2 w)"
proof
  fix F :: "'f float64_ops"
  have a: "(0::int) < 4" by simp
  have wc: "work_chunks 10 4 = (4, 2)"
    by (simp add: work_chunks_def Let_def signed_divide_int_def)
  note big = downsampleConcurrent_eq_downsample[OF a, of F "[3, 0, 3, 1, 2, 3]" "replicate 50000 5" 10 ModeLUFS]
  note small = downsampleConcurrent_eq_downsample[OF a, of F "[1, 0]" "[1, 2, 3]" 2 ModeRMS]
  from big wc have "\<forall>bucket. 0 \<le> bucket \<and> bucket < 10 \<longrightarrow>
      (\<exists>!w. 0 \<le> w \<and> w < 4 \<and> worker_startBucket 2 w \<le> bucket \<and> bucket < worker_endBucket 10 4 2 w)"
    by simp
  then have "\<exists>!w. 0 \<le> w \<and> w < 4 \<and> worker_startBucket 2 w \<le> 9 \<and> 9 < worker_endBucket 10 4 2 w"
    by simp
  with big small wc
  show "downsampleConcurrent F 4 [3, 0, 3, 1, 2, 3] (replicate 50000 5) 10 ModeLUFS
          = downsample F (replicate 50000 5) 10 ModeLUFS \<and>
       downsampleConcurrent F 4 [1, 0] [1, 2, 3] 2 ModeRMS = downsample F [1, 2, 3] 2 ModeRMS \<and>
       work_chunks 10 4 = (4, 2) \<and>
       (\<exists>!w. 0 \<le> w \<and> w < 4 \<and> worker_startBucket 2 w \<le> 9 \<and> 9 < worker_endBucket 10 4 2 w)"
    by simp
qed

section \<open>More buckets than samples\<close>

text \<open>
  C4. When \<open>B > N > 0\<close> the bucket size is clamped to 1. Neither \<open>downsample\<close> nor
  \<open>downsampleConcurrent\<close> panics (no read or write out of range: both return a peak
  sequence), and every bucket whose start index \<open>i\<close> is at least \<open>N\<close> holds the value 0.
\<close>

theorem degenerate_buckets_zero:
  assumes "0 < len samples" and "len samples < B" and "0 < numCPU"
  shows "\<exists>peaks. downsample F samples B mode = Inr peaks \<and>
           downsampleConcurrent F numCPU sched samples B mode = Inr peaks \<and>
           len peaks = B \<and>
           (\<forall>i < nat B. len samples \<le> int i \<longrightarrow> peaks ! i = fconst F 0)"
proof -
  have ne: "samples \<noteq> []" using assms(1) by (auto simp: len_def)
  have B: "0 < B" using assms by simp
  let ?peaks = "map (\<lambda>k. projr (bucket_value F samples B mode (int k))) [0 ..< nat B]"
  have d: "downsample F samples B mode = Inr ?peaks" by (rule downsample_buckets[OF ne B])
  have c: "downsampleConcurrent F numCPU sched samples B mode = Inr ?peaks"
    using downsampleConcurrent_downsample[OF assms(3), of F sched samples B mode] d by simp
  have bs: "bucketSize (len samples) B = 1"
    using assms by (simp add: bucketSize_def)
  have "?peaks ! i = fconst F 0" if "i < nat B" "len samples \<le> int i" for i
  proof -
    have "bucket_value F samples B mode (int i) = Inr (fconst F 0)"
      unfolding bucket_value_def bs by (rule calculateLoudness_empty) (use that in simp)
    then show ?thesis using that by simp
  qed
  with d c B show ?thesis by (simp add: len_def)
qed

theorem degenerate_buckets_zero_witness:
  "\<forall>F. \<exists>peaks. downsample F [1, 2, 3, 4, 5] 20 ModeDynamic = Inr peaks \<and>
         downsampleConcurrent F 8 [2, 1, 0] [1, 2, 3, 4, 5] 20 ModeDynamic = Inr peaks \<and>
         len peaks = 20 \<and> peaks ! 5 = fconst F 0 \<and> peaks ! 19 = fconst F 0"
proof
  fix F :: "'f float64_ops"
  have a: "0 < len [1, 2, 3, 4, 5 :: int16]" and b: "len [1, 2, 3, 4, 5 :: int16] < 20"
    and c: "(0::int) < 8"
    by (simp_all add: len_def)
  obtain peaks where p: "downsample F [1, 2, 3, 4, 5] 20 ModeDynamic = Inr peaks"
    "downsampleConcurrent F 8 [2, 1, 0] [1, 2, 3, 4, 5] 20 ModeDynamic = Inr peaks"
    "len peaks = 20"
    and z: "\<forall>i < nat 20. len [1, 2, 3, 4, 5 :: int16] \<le> int i \<longrightarrow> peaks ! i = fconst F 0"
    using degenerate_buckets_zero[OF a b c, of F ModeDynamic "[2, 1, 0]"] by blast
  from z have "peaks ! 5 = fconst F 0" "peaks ! 19 = fconst F 0"
    by (simp_all add: len_def)
  with p show "\<exists>peaks. downsample F [1, 2, 3, 4, 5] 20 ModeDynamic = Inr peaks \<and>
         downsampleConcurrent F 8 [2, 1, 0] [1, 2, 3, 4, 5] 20 ModeDynamic = Inr peaks \<and>
         len peaks = 20 \<and> peaks ! 5 = fconst F 0 \<and> peaks ! 19 = fconst F 0"
    by blast
qed

section \<open>UpdateConfig\<close>

lemma UpdateConfig_same:
  assumes "Config w = Some old" and "Mode new = Mode old \<or> samples = None"
  shows "UpdateConfig F numCPU sched w (Some new) samples = (w\<lparr>Config := Some new\<rparr>, None)"
  using assms by (auto simp: UpdateConfig_def Let_def)

lemma UpdateConfig_regenerate:
  assumes "Config w = Some old" and "Mode new \<noteq> Mode old"
  shows "UpdateConfig F numCPU sched w (Some new) (Some smp) =
           (case NewFromSamples F numCPU sched smp (Some new) of
              Inl e \<Rightarrow> (w\<lparr>Config := Some new\<rparr>, Some e)
            | Inr w' \<Rightarrow> (w', None))"
  using assms by (auto simp: UpdateConfig_def NewFromSamples_def Let_def split: sum.splits)

lemma NewFromSamples_length:
  assumes "0 < numCPU" "0 < len samples" "0 < Bars cfg"
  shows "\<exists>peaks. NewFromSamples F numCPU sched samples (Some cfg) = Inr \<lparr>Peaks = peaks, Config = Some cfg\<rparr> \<and>
           len peaks = Bars cfg"
proof -
  have ne: "samples \<noteq> []" using assms(2) by (auto simp: len_def)
  have "downsample F samples (Bars cfg) (Mode cfg)
      = Inr (map (\<lambda>k. projr (bucket_value F samples (Bars cfg) (Mode cfg) (int k))) [0 ..< nat (Bars cfg)])"
    by (rule downsample_buckets[OF ne assms(3)])
  then show ?thesis
    using assms(3) downsampleConcurrent_downsample[OF assms(1), of F sched samples "Bars cfg" "Mode cfg"]
    by (simp add: NewFromSamples_def len_def)
qed

text \<open>
  C8. On a waveform that has a config, \<open>UpdateConfig\<close> with a new config always leaves
  the new config in the waveform. It regenerates the peaks if and only if the mode of the
  new config differs from the mode of the old one and a non-nil sample slice is given: then
  the waveform becomes the one \<open>NewFromSamples\<close> builds from these samples and the new
  config (and a panic of the generation leaves the old peaks); otherwise only the config
  changes. In particular a new config that differs from the old one only in width, height,
  bar spacing, bar color and corner radius leaves the peaks as they were.
\<close>

theorem UpdateConfig_effect:
  assumes "Config w = Some old"
  shows "Config (fst (UpdateConfig F numCPU sched w (Some new) samples)) = Some new \<and>
         (Mode new \<noteq> Mode old \<and> samples = Some smp \<longrightarrow>
            UpdateConfig F numCPU sched w (Some new) samples =
              (case NewFromSamples F numCPU sched smp (Some new) of
                 Inl e \<Rightarrow> (w\<lparr>Config := Some new\<rparr>, Some e)
               | Inr w' \<Rightarrow> (w', None))) \<and>
         (Mode new = Mode old \<or> samples = None \<longrightarrow>
            UpdateConfig F numCPU sched w (Some new) samples = (w\<lparr>Config := Some new\<rparr>, None)) \<and>
         (new = old\<lparr>Width := width, Height := height, BarSpacing := spacing, BarColor := color,
                    CornerRadius := radius\<rparr> \<longrightarrow>
            Peaks (fst (UpdateConfig F numCPU sched w (Some new) samples)) = Peaks w)"
proof -
  have 1: "Config (fst (UpdateConfig F numCPU sched w (Some new) samples)) = Some new"
  proof (cases "Mode new = Mode old \<or> samples = None")
    case True
    then show ?thesis by (simp add: UpdateConfig_same[OF assms])
  next
    case False
    then obtain s where s: "samples = Some s" and m: "Mode new \<noteq> Mode old" by auto
    show ?thesis
      unfolding s UpdateConfig_regenerate[OF assms m]
      by (auto simp: NewFromSamples_def Let_def split: sum.splits)
  qed
  have 4: "Peaks (fst (UpdateConfig F numCPU sched w (Some new) samples)) = Peaks w"
    if "new = old\<lparr>Width := width, Height := height, BarSpacing := spacing, BarColor := color,
                    CornerRadius := radius\<rparr>"
  proof -
    have "Mode new = Mode old" using that by simp
    then show ?thesis by (simp add: UpdateConfig_same[OF assms])
  qed
  from 1 4 UpdateConfig_same[OF assms, of new samples F numCPU sched]
    UpdateConfig_regenerate[OF assms, of new F numCPU sched smp]
  show ?thesis by blast
qed

theorem UpdateConfig_effect_witness:
  "\<forall>F. let old = DefaultConfig F;
            w = \<lparr>Peaks = [fconst F 0.5, fconst F 0.25], Config = Some old\<rparr>;
            new = old\<lparr>Bars := 2, Mode := ModePeak\<rparr>;
            cosmetic = old\<lparr>Width := 640, Height := 120, BarSpacing := 1, BarColor := ''#FF0000'',
                           CornerRadius := fconst F 2.0\<rparr>
        in Config (fst (UpdateConfig F 4 [] w (Some new) (Some [1, 2, 3, 4]))) = Some new \<and>
           (\<exists>peaks. UpdateConfig F 4 [] w (Some new) (Some [1, 2, 3, 4])
                      = (\<lparr>Peaks = peaks, Config = Some new\<rparr>, None) \<and> len peaks = 2) \<and>
           UpdateConfig F 4 [] w (Some new) None = (w\<lparr>Config := Some new\<rparr>, None) \<and>
           UpdateConfig F 4 [] w (Some cosmetic) (Some [1, 2, 3, 4]) = (w\<lparr>Config := Some cosmetic\<rparr>, None) \<and>
           Peaks (fst (UpdateConfig F 4 [] w (Some cosmetic) (Some [1, 2, 3, 4]))) = Peaks w"
proof
  fix F :: "'f float64_ops"
  define old where "old = DefaultConfig F"
  define w where "w = \<lparr>Peaks = [fconst F 0.5, fconst F 0.25], Config = Some old\<rparr>"
  define new where "new = old\<lparr>Bars := 2, Mode := ModePeak\<rparr>"
  define cosmetic where "cosmetic = old\<lparr>Width := 640, Height := 120, BarSpacing := 1,
      BarColor := ''#FF0000'', CornerRadius := fconst F 2.0\<rparr>"
  have c: "Config w = Some old" by (simp add: w_def)
  have m: "Mode new \<noteq> Mode old"
    by (simp add: new_def old_def DefaultConfig_def ModePeak_def ModeDynamic_def)
  obtain peaks where n: "NewFromSamples F 4 [] [1, 2, 3, 4] (Some new) = Inr \<lparr>Peaks = peaks, Config = Some new\<rparr>"
    "len peaks = 2"
    using NewFromSamples_length[where numCPU = 4 and samples = "[1, 2, 3, 4]" and cfg = new
        and F = F and sched = "[]"]
    by (auto simp: new_def len_def)
  note t1 = UpdateConfig_effect[OF c, where F = F and numCPU = 4 and sched = "[]" and new = new
      and samples = "Some [1, 2, 3, 4]" and smp = "[1, 2, 3, 4]"]
  note t2 = UpdateConfig_effect[OF c, where F = F and numCPU = 4 and sched = "[]" and new = new
      and samples = None]
  note t3 = UpdateConfig_effect[OF c, where F = F and numCPU = 4 and sched = "[]" and new = cosmetic
      and samples = "Some [1, 2, 3, 4]" and width = 640 and height = 120 and spacing = 1
      and color = "''#FF0000''" and radius = "fconst F 2.0"]
  have r1: "Config (fst (UpdateConfig F 4 [] w (Some new) (Some [1, 2, 3, 4]))) = Some new"
    using t1 by simp
  have r2: "UpdateConfig F 4 [] w (Some new) (Some [1, 2, 3, 4]) = (\<lparr>Peaks = peaks, Config = Some new\<rparr>, None)"
    using t1 m n by simp
  have r3: "UpdateConfig F 4 [] w (Some new) None = (w\<lparr>Config := Some new\<rparr>, None)"
    using t2 by simp
  have cm: "Mode cosmetic = Mode old" by (simp add: cosmetic_def)
  have r4: "UpdateConfig F 4 [] w (Some cosmetic) (Some [1, 2, 3, 4]) = (w\<lparr>Config := Some cosmetic\<rparr>, None)"
    using t3 cm by simp
  have r5: "Peaks (fst (UpdateConfig F 4 [] w (Some cosmetic) (Some [1, 2, 3, 4]))) = Peaks w"
    using t3 by (simp add: cosmetic_def)
  from r1 r2 r3 r4 r5 n(2)
  show "let old = DefaultConfig F;
            w = \<lparr>Peaks = [fconst F 0.5, fconst F 0.25], Config = Some old\<rparr>;
            new = old\<lparr>Bars := 2, Mode := ModePeak\<rparr>;
            cosmetic = old\<lparr>Width := 640, Height := 120, BarSpacing := 1, BarColor := ''#FF0000'',
                           CornerRadius := fconst F 2.0\<rparr>
        in Config (fst (UpdateConfig F 4 [] w (Some new) (Some [1, 2, 3, 4]))) = Some new \<and>
           (\<exists>peaks. UpdateConfig F 4 [] w (Some new) (Some [1, 2, 3, 4])
                      = (\<lparr>Peaks = peaks, Config = Some new\<rparr>, None) \<and> len peaks = 2) \<and>
           UpdateConfig F 4 [] w (Some new) None = (w\<lparr>Config := Some new\<rparr>, None) \<and>
           UpdateConfig F 4 [] w (Some cosmetic) (Some [1, 2, 3, 4]) = (w\<lparr>Config := Some cosmetic\<rparr>, None) \<and>
           Peaks (fst (UpdateConfig F 4 [] w (Some cosmetic) (Some [1, 2, 3, 4]))) = Peaks w"
    unfolding Let_def old_def[symmetric] w_def[symmetric] new_def[symmetric] cosmetic_def[symmetric]
    by blast
qed

text \<open>
  C10. \<open>NewFromSamples\<close> returns as many peaks as the config has bars (for at least one
  sample and a positive number of bars), but \<open>UpdateConfig\<close> does not keep this: there are
  samples and two configs with the same mode and different \<open>Bars\<close> such that the call
  replaces the config, leaves the peaks unchanged, and the number of peaks differs from
  \<open>Bars\<close> afterwards.
\<close>

theorem UpdateConfig_breaks_length_invariant:
  "(0 < numCPU \<and> 0 < len samples \<and> 0 < Bars cfg \<longrightarrow>
      (\<exists>w. NewFromSamples F numCPU sched samples (Some cfg) = Inr w \<and> len (Peaks w) = Bars cfg)) \<and>
   (\<exists>samples cfg cfg' w w'.
      NewFromSamples F numCPU sched samples (Some cfg) = Inr w \<and> len (Peaks w) = Bars cfg \<and>
      Mode cfg' = Mode cfg \<and> Bars cfg' \<noteq> Bars cfg \<and>
      UpdateConfig F numCPU sched w (Some cfg') (Some samples) = (w', None) \<and>
      Peaks w' = Peaks w \<and> Config w' = Some cfg' \<and> len (Peaks w') \<noteq> Bars cfg')"
proof -
  let ?samples = "[100, 200, 300, 400] :: int16 list"
  let ?cfg = "(DefaultConfig F)\<lparr>Bars := 2\<rparr>"
  let ?cfg' = "(DefaultConfig F)\<lparr>Bars := 3\<rparr>"
  let ?peaks = "map (\<lambda>k. projr (bucket_value F ?samples 2 ModeDynamic (int k))) [0 ..< nat 2]"
  let ?w = "\<lparr>Peaks = ?peaks, Config = Some ?cfg\<rparr>"
  have d: "downsample F ?samples 2 ModeDynamic = Inr ?peaks"
    by (rule downsample_buckets) simp_all
  have n: "NewFromSamples F numCPU sched ?samples (Some ?cfg) = Inr ?w"
    using d by (simp add: NewFromSamples_def DefaultConfig_def downsampleConcurrent_small len_def)
  have u: "UpdateConfig F numCPU sched ?w (Some ?cfg') (Some ?samples) = (?w\<lparr>Config := Some ?cfg'\<rparr>, None)"
    by (rule UpdateConfig_same[where old = ?cfg]) simp_all
  have "NewFromSamples F numCPU sched ?samples (Some ?cfg) = Inr ?w \<and> len (Peaks ?w) = Bars ?cfg \<and>
      Mode ?cfg' = Mode ?cfg \<and> Bars ?cfg' \<noteq> Bars ?cfg \<and>
      UpdateConfig F numCPU sched ?w (Some ?cfg') (Some ?samples) = (?w\<lparr>Config := Some ?cfg'\<rparr>, None) \<and>
      Peaks (?w\<lparr>Config := Some ?cfg'\<rparr>) = Peaks ?w \<and> Config (?w\<lparr>Config := Some ?cfg'\<rparr>) = Some ?cfg' \<and>
      len (Peaks (?w\<lparr>Config := Some ?cfg'\<rparr>)) \<noteq> Bars ?cfg'"
    using n u by (simp add: len_def)
  then have "\<exists>samples cfg cfg' w w'.
      NewFromSamples F numCPU sched samples (Some cfg) = Inr w \<and> len (Peaks w) = Bars cfg \<and>
      Mode cfg' = Mode cfg \<and> Bars cfg' \<noteq> Bars cfg \<and>
      UpdateConfig F numCPU sched w (Some cfg') (Some samples) = (w', None) \<and>
      Peaks w' = Peaks w \<and> Config w' = Some cfg' \<and> len (Peaks w') \<noteq> Bars cfg'"
    by blast
  moreover have "\<exists>w. NewFromSamples F numCPU sched samples (Some cfg) = Inr w \<and> len (Peaks w) = Bars cfg"
    if "0 < numCPU" "0 < len samples" "0 < Bars cfg"
    using NewFromSamples_length[OF that, of F sched] by auto
  ultimately show ?thesis by blast
qed

theorem UpdateConfig_breaks_length_invariant_witness:
  "\<forall>F. (\<exists>w. NewFromSamples F 2 [0, 1] [7, 8, 9] (Some ((DefaultConfig F)\<lparr>Bars := 3\<rparr>)) = Inr w \<and>
            len (Peaks w) = 3) \<and>
       (\<exists>samples cfg cfg' w w'.
          NewFromSamples F 2 [0, 1] samples (Some cfg) = Inr w \<and> len (Peaks w) = Bars cfg \<and>
          Mode cfg' = Mode cfg \<and> Bars cfg' \<noteq> Bars cfg \<and>
          UpdateConfig F 2 [0, 1] w (Some cfg') (Some samples) = (w', None) \<and>
          Peaks w' = Peaks w \<and> Config w' = Some cfg' \<and> len (Peaks w') \<noteq> Bars cfg')"
proof
  fix F :: "'f float64_ops"
  show "(\<exists>w. NewFromSamples F 2 [0, 1] [7, 8, 9] (Some ((DefaultConfig F)\<lparr>Bars := 3\<rparr>)) = Inr w \<and>
            len (Peaks w) = 3) \<and>
       (\<exists>samples cfg cfg' w w'.
          NewFromSamples F 2 [0, 1] samples (Some cfg) = Inr w \<and> len (Peaks w) = Bars cfg \<and>
          Mode cfg' = Mode cfg \<and> Bars cfg' \<noteq> Bars cfg \<and>
          UpdateConfig F 2 [0, 1] w (Some cfg') (Some samples) = (w', None) \<and>
          Peaks w' = Peaks w \<and> Config w' = Some cfg' \<and> len (Peaks w') \<noteq> Bars cfg')"
    using UpdateConfig_breaks_length_invariant[where numCPU = 2 and samples = "[7, 8, 9]"
        and cfg = "(DefaultConfig F)\<lparr>Bars := 3\<rparr>" and F = F and sched = "[0, 1]"]
    by (simp add: len_def)
qed

section \<open>calculateLUFS and fastSqrt compute what is specified\<close>

lemma spec_normalized_step:
  assumes "0 \<le> i" "i < e" "e \<le> len samples"
  shows "spec_normalized F samples i e =
           fmul F (float64 F (sint (samples ! nat i))) (fconst F (1 / 32768)) #
           spec_normalized F samples (i + 1) e"
proof -
  have n: "nat i < length samples" using assms by (simp add: len_def)
  have "nat (e - i) = Suc (nat (e - (i + 1)))" using assms by simp
  moreover have "drop (nat i) samples = samples ! nat i # drop (nat (i + 1)) samples"
    using Cons_nth_drop_Suc[OF n] assms(1) by (simp add: nat_add_distrib)
  ultimately show ?thesis by (simp add: spec_normalized_def)
qed

lemma calculateLUFS_loop:
  assumes "0 \<le> i" "e \<le> len samples"
  shows "\<exists>prev'. for_loop i e (calculateLUFS_body F samples) (acc, prev) =
           Inr (foldl (fadd F) acc
                  (map (\<lambda>filtered. spec_scaled F (spec_magnitude F filtered))
                     (spec_filtered F prev (spec_normalized F samples i e))), prev')"
  using assms
proof (induction i e "calculateLUFS_body F samples" "(acc, prev)" arbitrary: acc prev rule: for_loop.induct)
  case (1 i e)
  show ?case
  proof (cases "i < e")
    case True
    let ?s = "fmul F (float64 F (sint (samples ! nat i))) (fconst F (1 / 32768))"
    let ?acc = "fadd F acc (spec_scaled F (spec_magnitude F (fsub F ?s (fmul F (fconst F 0.85) prev))))"
    have sa: "sample_at F samples i = Inr ?s"
      using True "1.prems" by (simp add: sample_at_def index_def invMaxSample_def)
    have b: "calculateLUFS_body F samples i (acc, prev) = Inr (?acc, ?s)"
      using sa by (simp add: calculateLUFS_body_def Let_def spec_scaled_def fabs_def spec_magnitude_def)
    have "\<exists>prev'. for_loop (i + 1) e (calculateLUFS_body F samples) (?acc, ?s) =
           Inr (foldl (fadd F) ?acc
                  (map (\<lambda>filtered. spec_scaled F (spec_magnitude F filtered))
                     (spec_filtered F ?s (spec_normalized F samples (i + 1) e))), prev')"
      by (rule "1.hyps"[OF True b]) (use "1.prems" in auto)
    then show ?thesis
      using True b spec_normalized_step[OF "1.prems"(1) True "1.prems"(2), of F]
      by (subst for_loop.simps) simp
  next
    case False
    then show ?thesis
      by (simp add: for_loop.simps spec_normalized_def)
  qed
qed

text \<open>
  C5. On every non-empty range \<open>[start, end)\<close> inside the slice, \<open>calculateLUFS\<close> returns
  the specified value: pre-emphasis \<open>filtered = sample - 0.85 * prevSample\<close> with
  \<open>prevSample\<close> seeded at 0 and updated every step, sum of the scaled magnitudes
  \<open>m^2 * (1 + 0.5 * m)\<close>, fast square root \<open>v\<close> of the mean, and then \<open>v^2 * 2\<close> when
  \<open>v > 0.1\<close> and \<open>v * 0.5\<close> otherwise.
\<close>

theorem calculateLUFS_spec:
  assumes "0 \<le> start" and "start < end" and "end \<le> len samples"
  shows "calculateLUFS F samples start end = Inr (spec_LUFS F (spec_normalized F samples start end))"
proof -
  obtain prev' where l: "for_loop start end (calculateLUFS_body F samples) (fconst F 0, fconst F 0) =
      Inr (foldl (fadd F) (fconst F 0)
             (map (\<lambda>filtered. spec_scaled F (spec_magnitude F filtered))
                (spec_filtered F (fconst F 0) (spec_normalized F samples start end))), prev')"
    using calculateLUFS_loop[OF assms(1,3), of F "fconst F 0" "fconst F 0"] by blast
  have n: "len (spec_normalized F samples start end) = end - start"
    using assms by (simp add: spec_normalized_def len_def)
  show ?thesis
    using assms(2) l by (simp add: calculateLUFS_def spec_LUFS_def Let_def n)
qed


theorem calculateLUFS_spec_witness:
  "\<forall>F. calculateLUFS F [100, - 200, 300, 7] 0 3 =
         Inr (spec_LUFS F [fmul F (float64 F 100) (fconst F (1 / 32768)),
                           fmul F (float64 F (- 200)) (fconst F (1 / 32768)),
                           fmul F (float64 F 300) (fconst F (1 / 32768))])"
proof
  fix F :: "'f float64_ops"
  have h: "(0::int) \<le> 0" "(0::int) < 3" "3 \<le> len [100, - 200, 300, 7 :: int16]"
    by (simp_all add: len_def)
  show "calculateLUFS F [100, - 200, 300, 7] 0 3 =
         Inr (spec_LUFS F [fmul F (float64 F 100) (fconst F (1 / 32768)),
                           fmul F (float64 F (- 200)) (fconst F (1 / 32768)),
                           fmul F (float64 F 300) (fconst F (1 / 32768))])"
    using calculateLUFS_spec[OF h, of F] by (simp add: spec_normalized_def)
qed

text \<open>
  C7. \<open>fastSqrt\<close> returns 0 for every \<open>x \<le> 0\<close>. For every other input, so for every
  \<open>x > 0\<close>, it returns \<open>1 / y\<close>, where \<open>y\<close> is the Newton-Raphson refinement
  \<open>y0 * (1.5 - 0.5 * x * y0^2)\<close> of the estimate \<open>y0\<close> whose bits are
  \<open>0x5fe6eb50c7b537a9 - (bits >> 1)\<close>, computed on 64-bit unsigned integers.
\<close>

theorem fastSqrt_spec:
  "fastSqrt F x =
     (if fle F x (fconst F 0) then fconst F 0
      else fdiv F (fconst F 1) (spec_refine F x (spec_estimate F x)))"
  by (simp add: fastSqrt_def spec_refine_def spec_estimate_def Let_def)

end
